theory Spec2Isabelle
  imports Main "HOL-Library.Sublist" "HOL-Library.List_Lexorder" "HOL-Library.Char_ord"
begin

section \<open>Strings\<close>

text \<open>
  A JavaScript string is a sequence of code units. It is modelled as a \<open>string\<close>, a list
  of characters with codes 0 to 255, read as the code units U+0000 to U+00FF. The
  white space of \<open>String.prototype.trim\<close> and of the regular expression class \<open>\s\<close> is the
  same set (WhiteSpace and LineTerminator of ECMAScript); within this range it is
  TAB, LF, VT, FF, CR, SPACE and NO-BREAK SPACE.
\<close>

definition isWhiteSpace :: "char \<Rightarrow> bool" where
  "isWhiteSpace c \<longleftrightarrow> of_char c \<in> {9, 10, 11, 12, 13, 32, 160 :: nat}"

definition newline :: char where
  "newline = CHR 0x0A"

definition isSentenceEnd :: "char \<Rightarrow> bool" where
  "isSentenceEnd c \<longleftrightarrow> c = CHR ''.'' \<or> c = CHR ''!'' \<or> c = CHR ''?''"

text \<open>\<open>s.trim()\<close>: white space removed from both ends.\<close>

definition trim :: "string \<Rightarrow> string" where
  "trim s = rev (dropWhile isWhiteSpace (rev (dropWhile isWhiteSpace s)))"

text \<open>
  \<open>s.split(re)\<close> for a regular expression that never matches the empty string. The
  matcher \<open>m prev rest\<close> gives the length of the match of \<open>re\<close> that starts at the current
  position, where \<open>rest\<close> is the text from that position on and \<open>prev\<close> the code unit
  before it (for a lookbehind); 0 stands for no match. As in ECMAScript's algorithm the
  position \<open>q\<close> moves right one code unit at a time from the start \<open>p\<close> of the current
  piece; at the first match the piece \<open>S[p..q)\<close> is emitted (here \<open>cur\<close>) and both move
  to the end of the match; the text after the last match is the last piece. The empty
  string gives one empty piece.
\<close>

function jsSplit :: "(char option \<Rightarrow> string \<Rightarrow> nat) \<Rightarrow> char option \<Rightarrow> string \<Rightarrow> string \<Rightarrow> string list" where
  "jsSplit m prev cur [] = [cur]"
| "jsSplit m prev cur (c # cs) =
     (let e = m prev (c # cs) in
      if e = 0 then jsSplit m (Some c) (cur @ [c]) cs
      else cur # jsSplit m (Some (last (take e (c # cs)))) [] (drop e (c # cs)))"
  by pat_completeness auto
termination
  by (relation "measure (\<lambda>(m, prev, cur, s). length s)") auto

text \<open>The three regular expressions of the chunk module.\<close>

definition matchWhiteSpace :: "char option \<Rightarrow> string \<Rightarrow> nat" where
  \<comment> \<open>\<open>/\s+/\<close>\<close>
  "matchWhiteSpace prev s = length (takeWhile isWhiteSpace s)"

definition matchBlankLines :: "char option \<Rightarrow> string \<Rightarrow> nat" where
  \<comment> \<open>\<open>/\n\n+/\<close>\<close>
  "matchBlankLines prev s =
     (let k = length (takeWhile (\<lambda>c. c = newline) s) in if 2 \<le> k then k else 0)"

definition matchSentenceGap :: "char option \<Rightarrow> string \<Rightarrow> nat" where
  \<comment> \<open>\<open>/(?<=[.!?])\s+/\<close>\<close>
  "matchSentenceGap prev s =
     (case prev of
        None \<Rightarrow> 0
      | Some p \<Rightarrow> if isSentenceEnd p then length (takeWhile isWhiteSpace s) else 0)"

definition splitWords :: "string \<Rightarrow> string list" where
  \<comment> \<open>\<open>text.split(/\s+/)\<close>\<close>
  "splitWords text = jsSplit matchWhiteSpace None [] text"

definition splitParagraphs :: "string \<Rightarrow> string list" where
  \<comment> \<open>\<open>content.split(/\n\n+/)\<close>\<close>
  "splitParagraphs content = jsSplit matchBlankLines None [] content"

definition splitSentences :: "string \<Rightarrow> string list" where
  \<comment> \<open>\<open>paragraph.split(/(?<=[.!?])\s+/)\<close>\<close>
  "splitSentences paragraph = jsSplit matchSentenceGap None [] paragraph"

section \<open>Token counter\<close>

text \<open>
  \<open>countTokens\<close> is the length of the token sequence that the tiktoken encoder gives for
  the text. The encoder is a library outside the repository: it is a parameter \<open>enc\<close> of
  every function that counts tokens, a total function from texts to token sequences, and
  the theorems hold for every encoder, or for every encoder with a stated property.
\<close>

type_synonym encoder = "string \<Rightarrow> nat list"

definition countTokens :: "encoder \<Rightarrow> string \<Rightarrow> nat" where
  "countTokens enc text = length (enc text)"

text \<open>
  A concrete encoder on which the model can be run: every code unit is a token of its
  own (a byte-level encoding without merges).
\<close>

definition unitEncoder :: encoder where
  "unitEncoder text = map of_char text"

section \<open>Overlap text\<close>

text \<open>
  The loop of \<open>getOverlapText\<close> runs the index from the last word down to the first
  while \<open>tokens < overlapTokens\<close>: the recursion is over the words still to be visited,
  last word first.
\<close>

fun overlapLoop :: "encoder \<Rightarrow> int \<Rightarrow> string list \<Rightarrow> string \<Rightarrow> nat \<Rightarrow> string" where
  "overlapLoop enc overlapTokens [] result tokens = result"
| "overlapLoop enc overlapTokens (w # ws) result tokens =
     (if int tokens < overlapTokens
      then let result' = w @ (if result \<noteq> [] then '' '' @ result else [])
           in overlapLoop enc overlapTokens ws result' (countTokens enc result')
      else result)"

definition getOverlapText :: "encoder \<Rightarrow> string \<Rightarrow> int \<Rightarrow> string" where
  "getOverlapText enc text overlapTokens =
     (if overlapTokens \<le> 0 then []
      else overlapLoop enc overlapTokens (rev (splitWords text)) [] 0)"

section \<open>Chunking engine\<close>

record chunker =
  chunks :: "string list"
  currentChunk :: string
  currentTokens :: nat

definition flushChunk :: "encoder \<Rightarrow> int \<Rightarrow> string \<Rightarrow> chunker \<Rightarrow> string \<Rightarrow> chunker" where
  \<comment> \<open>push the trimmed accumulator, restart it from its overlap text and the next piece\<close>
  "flushChunk enc overlap sep st piece =
     (let next = getOverlapText enc (currentChunk st) overlap @ sep @ piece
      in \<lparr>chunks = chunks st @ [trim (currentChunk st)],
          currentChunk = next,
          currentTokens = countTokens enc next\<rparr>)"

definition appendPiece :: "string \<Rightarrow> chunker \<Rightarrow> string \<Rightarrow> nat \<Rightarrow> chunker" where
  \<comment> \<open>\<open>currentChunk += (currentChunk ? sep : '') + piece; currentTokens += pieceTokens\<close>\<close>
  "appendPiece sep st piece pieceTokens =
     st\<lparr>currentChunk := currentChunk st @ (if currentChunk st \<noteq> [] then sep else []) @ piece,
        currentTokens := currentTokens st + pieceTokens\<rparr>"

definition sentenceStep :: "encoder \<Rightarrow> int \<Rightarrow> int \<Rightarrow> chunker \<Rightarrow> string \<Rightarrow> chunker" where
  "sentenceStep enc chunkSize overlap st sentence =
     (let sentenceTokens = countTokens enc sentence in
      if int (currentTokens st + sentenceTokens) > chunkSize \<and> currentChunk st \<noteq> []
      then flushChunk enc overlap '' '' st sentence
      else appendPiece '' '' st sentence sentenceTokens)"

definition paragraphStep :: "encoder \<Rightarrow> int \<Rightarrow> int \<Rightarrow> chunker \<Rightarrow> string \<Rightarrow> chunker" where
  "paragraphStep enc chunkSize overlap st paragraph =
     (let paragraphTokens = countTokens enc paragraph in
      if int paragraphTokens > chunkSize then
        let st' = (if currentChunk st \<noteq> []
                   then \<lparr>chunks = chunks st @ [trim (currentChunk st)],
                         currentChunk = [], currentTokens = 0\<rparr>
                   else st)
        in foldl (sentenceStep enc chunkSize overlap) st' (splitSentences paragraph)
      else if int (currentTokens st + paragraphTokens) > chunkSize then
        flushChunk enc overlap [newline, newline] st paragraph
      else appendPiece [newline, newline] st paragraph paragraphTokens)"

definition chunkContent :: "encoder \<Rightarrow> string \<Rightarrow> int \<Rightarrow> int \<Rightarrow> string list" where
  "chunkContent enc content chunkSize overlap =
     (let st = foldl (paragraphStep enc chunkSize overlap)
                 \<lparr>chunks = [], currentChunk = [], currentTokens = 0\<rparr>
                 (splitParagraphs content)
      in if trim (currentChunk st) \<noteq> [] then chunks st @ [trim (currentChunk st)]
         else chunks st)"

section \<open>The loops as the source writes them\<close>

text \<open>
  In the definitions above a loop is a recursion over the list it goes through, so it
  returns by construction. Here the loops are written as in the source: the loop of
  \<open>getOverlapText\<close> counts an index down while \<open>i >= 0 && tokens < overlapTokens\<close>, the
  loops of \<open>chunkContent\<close> go through the indices of the array of sentences and of the
  array of paragraphs. Each loop is a function that may not return: \<open>None\<close> stands for a
  run that does not end. Nothing is assumed about the accumulator getting shorter.
\<close>

partial_function (option) overlapWhile ::
  "encoder \<Rightarrow> int \<Rightarrow> string list \<Rightarrow> int \<Rightarrow> string \<Rightarrow> nat \<Rightarrow> string option" where
  "overlapWhile enc overlapTokens words i result tokens =
     (if 0 \<le> i \<and> int tokens < overlapTokens
      then let result' = words ! nat i @ (if result \<noteq> [] then '' '' @ result else [])
           in overlapWhile enc overlapTokens words (i - 1) result' (countTokens enc result')
      else Some result)"

definition getOverlapText_run :: "encoder \<Rightarrow> string \<Rightarrow> int \<Rightarrow> string option" where
  "getOverlapText_run enc text overlapTokens =
     (if overlapTokens \<le> 0 then Some []
      else let words = splitWords text
           in overlapWhile enc overlapTokens words (int (length words) - 1) [] 0)"

definition flushChunk_run :: "encoder \<Rightarrow> int \<Rightarrow> string \<Rightarrow> chunker \<Rightarrow> string \<Rightarrow> chunker option" where
  "flushChunk_run enc overlap sep st piece =
     Option.bind (getOverlapText_run enc (currentChunk st) overlap)
       (\<lambda>overlapText.
          let next = overlapText @ sep @ piece
          in Some \<lparr>chunks = chunks st @ [trim (currentChunk st)],
                   currentChunk = next,
                   currentTokens = countTokens enc next\<rparr>)"

definition sentenceStep_run :: "encoder \<Rightarrow> int \<Rightarrow> int \<Rightarrow> chunker \<Rightarrow> string \<Rightarrow> chunker option" where
  "sentenceStep_run enc chunkSize overlap st sentence =
     (let sentenceTokens = countTokens enc sentence in
      if int (currentTokens st + sentenceTokens) > chunkSize \<and> currentChunk st \<noteq> []
      then flushChunk_run enc overlap '' '' st sentence
      else Some (appendPiece '' '' st sentence sentenceTokens))"

partial_function (option) sentenceWhile ::
  "encoder \<Rightarrow> int \<Rightarrow> int \<Rightarrow> string list \<Rightarrow> nat \<Rightarrow> chunker \<Rightarrow> chunker option" where
  "sentenceWhile enc chunkSize overlap sentences j st =
     (if j < length sentences
      then Option.bind (sentenceStep_run enc chunkSize overlap st (sentences ! j))
             (\<lambda>st'. sentenceWhile enc chunkSize overlap sentences (j + 1) st')
      else Some st)"

definition paragraphStep_run :: "encoder \<Rightarrow> int \<Rightarrow> int \<Rightarrow> chunker \<Rightarrow> string \<Rightarrow> chunker option" where
  "paragraphStep_run enc chunkSize overlap st paragraph =
     (let paragraphTokens = countTokens enc paragraph in
      if int paragraphTokens > chunkSize then
        let st' = (if currentChunk st \<noteq> []
                   then \<lparr>chunks = chunks st @ [trim (currentChunk st)],
                         currentChunk = [], currentTokens = 0\<rparr>
                   else st)
        in sentenceWhile enc chunkSize overlap (splitSentences paragraph) 0 st'
      else if int (currentTokens st + paragraphTokens) > chunkSize then
        flushChunk_run enc overlap [newline, newline] st paragraph
      else Some (appendPiece [newline, newline] st paragraph paragraphTokens))"

partial_function (option) paragraphWhile ::
  "encoder \<Rightarrow> int \<Rightarrow> int \<Rightarrow> string list \<Rightarrow> nat \<Rightarrow> chunker \<Rightarrow> chunker option" where
  "paragraphWhile enc chunkSize overlap paragraphs i st =
     (if i < length paragraphs
      then Option.bind (paragraphStep_run enc chunkSize overlap st (paragraphs ! i))
             (\<lambda>st'. paragraphWhile enc chunkSize overlap paragraphs (i + 1) st')
      else Some st)"

definition chunkContent_run :: "encoder \<Rightarrow> string \<Rightarrow> int \<Rightarrow> int \<Rightarrow> string list option" where
  "chunkContent_run enc content chunkSize overlap =
     Option.bind
       (paragraphWhile enc chunkSize overlap (splitParagraphs content) 0
          \<lparr>chunks = [], currentChunk = [], currentTokens = 0\<rparr>)
       (\<lambda>st. Some (if trim (currentChunk st) \<noteq> [] then chunks st @ [trim (currentChunk st)]
                    else chunks st))"

section \<open>Chunk assembler\<close>

definition getDefaultChunkSize :: "string \<Rightarrow> int" where
  "getDefaultChunkSize fmt =
     (if fmt = ''rag'' then 500
      else if fmt = ''finetune-openai'' \<or> fmt = ''finetune-alpaca'' then 1000
      else if fmt = ''markdown'' then 2000
      else 500)"

text \<open>\<open>String(n)\<close> for a non-negative integer counter: its decimal digits.\<close>

definition digitChar :: "nat \<Rightarrow> char" where
  "digitChar d = char_of (48 + d)"

function numberToString :: "nat \<Rightarrow> string" where
  "numberToString n =
     (if n < 10 then [digitChar n] else numberToString (n div 10) @ [digitChar (n mod 10)])"
  by pat_completeness auto
termination
  by (relation "measure id") auto

declare numberToString.simps [simp del]

definition padStart :: "nat \<Rightarrow> char \<Rightarrow> string \<Rightarrow> string" where
  \<comment> \<open>\<open>s.padStart(targetLength, fill)\<close> with a one-character fill\<close>
  "padStart targetLength fill s = replicate (targetLength - length s) fill @ s"

definition chunkIdString :: "nat \<Rightarrow> string" where
  \<comment> \<open>the template \<open>chunk-${String(n).padStart(4, '0')}\<close>\<close>
  "chunkIdString n = ''chunk-'' @ padStart 4 (CHR ''0'') (numberToString n)"

text \<open>
  The records of \<open>types/index\<close>. A page's title is the field \<open>page_title\<close>, a chunk's
  id and content are \<open>chunk_id\<close> and \<open>chunk_content\<close>; the other fields have the names of
  the source. The optional fields \<open>enrichment\<close> and \<open>embedding\<close> of a chunk are absent
  when a chunk is created and are left out.
\<close>

record extractedPage =
  url :: string
  page_title :: string
  content :: string
  headings :: "string list"

record chunkOptions =
  chunkSize :: int
  chunkOverlap :: int
  outputFormat :: string


record chunkMetadata =
  source_url :: string
  title :: string
  "section" :: string
  chunk_index :: nat
  total_chunks :: nat

record chunk =
  chunk_id :: string
  chunk_content :: string
  tokenCount :: nat
  metadata :: chunkMetadata

record assembler =
  allChunks :: "chunk list"
  chunkId :: nat

definition firstHeading :: "string list \<Rightarrow> string" where
  \<comment> \<open>\<open>page.headings[0] || ''\<close>\<close>
  "firstHeading hs = (case hs of [] \<Rightarrow> [] | h # _ \<Rightarrow> h)"

definition pushChunk :: "encoder \<Rightarrow> extractedPage \<Rightarrow> string list \<Rightarrow> assembler \<Rightarrow> nat \<Rightarrow> assembler" where
  \<comment> \<open>the body of the inner loop of \<open>chunkPages\<close>, for index \<open>i\<close>\<close>
  "pushChunk enc page textChunks st i =
     \<lparr>allChunks = allChunks st @
        [\<lparr>chunk_id = chunkIdString (chunkId st),
          chunk_content = textChunks ! i,
          tokenCount = countTokens enc (textChunks ! i),
          metadata = \<lparr>source_url = url page,
                      title = page_title page,
                      section = firstHeading (headings page),
                      chunk_index = i,
                      total_chunks = length textChunks\<rparr>\<rparr>],
      chunkId = chunkId st + 1\<rparr>"

definition pageStep :: "encoder \<Rightarrow> int \<Rightarrow> int \<Rightarrow> assembler \<Rightarrow> extractedPage \<Rightarrow> assembler" where
  "pageStep enc sz ovl st page =
     (let textChunks = chunkContent enc (content page) sz ovl
      in foldl (pushChunk enc page textChunks) st [0..<length textChunks])"

definition resolveChunkSize :: "chunkOptions \<Rightarrow> int" where
  \<comment> \<open>\<open>options.chunkSize || getDefaultChunkSize(options.outputFormat)\<close>\<close>
  "resolveChunkSize options =
     (if chunkSize options = 0 then getDefaultChunkSize (outputFormat options)
      else chunkSize options)"

definition chunkPages :: "encoder \<Rightarrow> extractedPage list \<Rightarrow> chunkOptions \<Rightarrow> chunk list" where
  \<comment> \<open>\<open>options.chunkOverlap ?? 50\<close> is \<open>options.chunkOverlap\<close>: the field is a number\<close>
  "chunkPages enc pages options =
     allChunks (foldl (pageStep enc (resolveChunkSize options) (chunkOverlap options))
                  \<lparr>allChunks = [], chunkId = 0\<rparr> pages)"


text \<open>
  Reading an id back: the number that the decimal digits after the six characters of
  \<open>chunk-\<close> stand for. It is used to state the order of the ids.
\<close>

definition digitValue :: "char \<Rightarrow> nat" where
  "digitValue c = of_char c - 48"

definition stringToNumber :: "string \<Rightarrow> nat" where
  "stringToNumber s = foldl (\<lambda>a c. 10 * a + digitValue c) 0 s"

definition idNumber :: "string \<Rightarrow> nat" where
  "idNumber ident = stringToNumber (drop 6 ident)"

text \<open>
  The decimal digits, and the digits of a number written in a fixed width, with zeros on
  the left. Strings are compared as JavaScript compares them, code unit by code unit
  (the lexicographic order of lists over the order of characters by their codes).
\<close>

definition isDigit :: "char \<Rightarrow> bool" where
  "isDigit c \<longleftrightarrow> 48 \<le> (of_char c :: nat) \<and> (of_char c :: nat) \<le> 57"

fun fixedDigits :: "nat \<Rightarrow> nat \<Rightarrow> string" where
  "fixedDigits 0 n = []"
| "fixedDigits (Suc k) n = fixedDigits k (n div 10) @ [digitChar (n mod 10)]"

section \<open>Shapes of texts\<close>

text \<open>
  Predicates on texts that the statements below use: a blank line is two newlines in a
  row (a match of \<open>/\n\n+/\<close>), a sentence boundary is white space right after one of
  \<open>.\<close>, \<open>!\<close> and \<open>?\<close> (a match of \<open>/(?<=[.!?])\s+/\<close>).
\<close>

fun hasBlankLine :: "string \<Rightarrow> bool" where
  "hasBlankLine (a # b # cs) = ((a = newline \<and> b = newline) \<or> hasBlankLine (b # cs))"
| "hasBlankLine _ = False"

fun hasSentenceBoundary :: "string \<Rightarrow> bool" where
  "hasSentenceBoundary (a # b # cs) =
     ((isSentenceEnd a \<and> isWhiteSpace b) \<or> hasSentenceBoundary (b # cs))"
| "hasSentenceBoundary _ = False"

text \<open>
  A run of three newlines, and the paragraphs joined again by two newlines
  (\<open>paragraphs.join('\n\n')\<close>).
\<close>

fun hasTripleNewline :: "string \<Rightarrow> bool" where
  "hasTripleNewline (a # b # c # cs) =
     ((a = newline \<and> b = newline \<and> c = newline) \<or> hasTripleNewline (b # c # cs))"
| "hasTripleNewline _ = False"

fun joinParagraphs :: "string list \<Rightarrow> string" where
  "joinParagraphs [] = []"
| "joinParagraphs [p] = p"
| "joinParagraphs (p # q # ps) = p @ [newline, newline] @ joinParagraphs (q # ps)"

text \<open>
  The accumulator of \<open>chunkContent\<close> after a paragraph is appended to it:
  \<open>currentChunk + (currentChunk ? '\n\n' : '') + paragraph\<close>.
\<close>

definition paraAcc :: "string \<Rightarrow> string \<Rightarrow> string" where
  "paraAcc cur p = cur @ (if cur \<noteq> [] then [newline, newline] else []) @ p"

text \<open>
  Words and their joins. \<open>joinSpace\<close> is \<open>words.join(' ')\<close>. \<open>dropEmptyTail\<close> removes the
  empty words at the end of a list of words (the list that \<open>split\<close> gives for a text
  ending in white space ends with one). \<open>accWords s\<close> is the text that the loop body of
  \<open>getOverlapText\<close>, \<open>result = words[i] + (result ? ' ' + result : '')\<close>, has built
  when it has gone through the words \<open>s\<close> from the last to the first.
\<close>

fun joinSpace :: "string list \<Rightarrow> string" where
  "joinSpace [] = []"
| "joinSpace [w] = w"
| "joinSpace (w # v # ws) = w @ '' '' @ joinSpace (v # ws)"

definition dropEmptyTail :: "string list \<Rightarrow> string list" where
  "dropEmptyTail ws = rev (dropWhile (\<lambda>w. w = []) (rev ws))"

fun accWords :: "string list \<Rightarrow> string" where
  "accWords [] = []"
| "accWords (w # ws) = w @ (if accWords ws \<noteq> [] then '' '' @ accWords ws else [])"

section \<open>Chunk ids\<close>

lemma digitValue_digitChar: "d < 10 \<Longrightarrow> digitValue (digitChar d) = d"
  by (simp add: digitValue_def digitChar_def)

lemma stringToNumber_snoc: "stringToNumber (s @ [c]) = 10 * stringToNumber s + digitValue c"
  by (simp add: stringToNumber_def)

lemma stringToNumber_numberToString: "stringToNumber (numberToString n) = n"
proof (induction n rule: numberToString.induct)
  case (1 n)
  show ?case
  proof (cases "n < 10")
    case True
    then show ?thesis
      by (subst numberToString.simps) (simp add: digitValue_digitChar stringToNumber_def)
  next
    case False
    then have "stringToNumber (numberToString (n div 10)) = n div 10"
      using "1.IH" by simp
    with False show ?thesis
      by (subst numberToString.simps) (simp add: stringToNumber_snoc digitValue_digitChar)
  qed
qed

lemma stringToNumber_zeros: "stringToNumber (replicate k (CHR ''0'') @ s) = stringToNumber s"
proof -
  have "foldl (\<lambda>a c. 10 * a + digitValue c) 0 (replicate k (CHR ''0'')) = 0"
    by (induction k) (simp_all add: digitValue_def)
  then show ?thesis
    by (simp add: stringToNumber_def)
qed

lemma drop_chunkIdString:
  "drop 6 (chunkIdString n) = padStart 4 (CHR ''0'') (numberToString n)"
  by (simp add: chunkIdString_def)

lemma idNumber_chunkIdString: "idNumber (chunkIdString n) = n"
  unfolding idNumber_def drop_chunkIdString padStart_def
  by (simp only: stringToNumber_zeros stringToNumber_numberToString)

lemma chunkIdString_inj: "chunkIdString m = chunkIdString n \<Longrightarrow> m = n"
proof -
  assume "chunkIdString m = chunkIdString n"
  then have "idNumber (chunkIdString m) = idNumber (chunkIdString n)"
    by (rule arg_cong)
  then show ?thesis
    by (simp only: idNumber_chunkIdString)
qed

section \<open>The id counter of \<open>chunkPages\<close>\<close>

lemma pushChunk_loop:
  "foldl (pushChunk enc page ts) st [0..<n] =
   \<lparr>allChunks = allChunks st @
      map (\<lambda>i. \<lparr>chunk_id = chunkIdString (chunkId st + i),
                chunk_content = ts ! i,
                tokenCount = countTokens enc (ts ! i),
                metadata = \<lparr>source_url = url page,
                            title = page_title page,
                            section = firstHeading (headings page),
                            chunk_index = i,
                            total_chunks = length ts\<rparr>\<rparr>) [0..<n],
    chunkId = chunkId st + n\<rparr>"
  by (induction n) (simp_all add: pushChunk_def)

lemma map_shift_upt: "map (\<lambda>i. f (a + i)) [0..<n] = map f [a..<a + n]"
  by (induction n) simp_all

lemma pageStep_ids:
  "map chunk_id (allChunks (pageStep enc sz ovl st page)) =
     map chunk_id (allChunks st) @
     map chunkIdString [chunkId st..<chunkId st + length (chunkContent enc (content page) sz ovl)]"
  by (simp add: pageStep_def pushChunk_loop Let_def o_def map_shift_upt)

lemma pageStep_chunkId:
  "chunkId (pageStep enc sz ovl st page) =
     chunkId st + length (chunkContent enc (content page) sz ovl)"
  by (simp add: pageStep_def pushChunk_loop Let_def)

lemma pageStep_length:
  "length (allChunks (pageStep enc sz ovl st page)) =
     length (allChunks st) + length (chunkContent enc (content page) sz ovl)"
  by (simp add: pageStep_def pushChunk_loop Let_def)

text \<open>
  The invariant of the outer loop: the counter is the number of chunks emitted so far,
  and the chunk at position \<open>i\<close> has the id made from \<open>i\<close>.
\<close>

lemma pages_counter:
  assumes "chunkId st = length (allChunks st)"
    and "map chunk_id (allChunks st) = map chunkIdString [0..<length (allChunks st)]"
  shows "chunkId (foldl (pageStep enc sz ovl) st pages) =
           length (allChunks (foldl (pageStep enc sz ovl) st pages)) \<and>
         map chunk_id (allChunks (foldl (pageStep enc sz ovl) st pages)) =
           map chunkIdString [0..<length (allChunks (foldl (pageStep enc sz ovl) st pages))]"
  using assms
proof (induction pages arbitrary: st)
  case Nil
  then show ?case by simp
next
  case (Cons p ps)
  let ?st = "pageStep enc sz ovl st p"
  let ?n = "length (chunkContent enc (content p) sz ovl)"
  have a: "chunkId ?st = length (allChunks ?st)"
    using Cons.prems(1) by (simp add: pageStep_chunkId pageStep_length)
  have "[0..<length (allChunks st) + ?n] =
        [0..<length (allChunks st)] @ [length (allChunks st)..<length (allChunks st) + ?n]"
    by (rule upt_add_eq_append) simp
  then have b: "map chunk_id (allChunks ?st) = map chunkIdString [0..<length (allChunks ?st)]"
    unfolding pageStep_ids pageStep_length Cons.prems(1)
    by (simp only: map_append Cons.prems(2) [symmetric])
  show ?case
    using Cons.IH [OF a b] by simp
qed

lemma chunkPages_id_list:
  "map chunk_id (chunkPages enc pages options) =
     map chunkIdString [0..<length (chunkPages enc pages options)]"
  unfolding chunkPages_def
  using pages_counter [of "\<lparr>allChunks = [], chunkId = 0\<rparr>" enc
      "resolveChunkSize options" "chunkOverlap options" pages]
  by simp

section \<open>Chunks of a page\<close>

lemma pageStep_chunks:
  "allChunks (pageStep enc sz ovl st page) =
     allChunks st @
     (let ts = chunkContent enc (content page) sz ovl
      in map (\<lambda>i. \<lparr>chunk_id = chunkIdString (chunkId st + i),
                    chunk_content = ts ! i,
                    tokenCount = countTokens enc (ts ! i),
                    metadata = \<lparr>source_url = url page,
                                title = page_title page,
                                section = firstHeading (headings page),
                                chunk_index = i,
                                total_chunks = length ts\<rparr>\<rparr>) [0..<length ts])"
  by (simp add: pageStep_def pushChunk_loop Let_def)

lemma map_nth_upt: "map (\<lambda>i. f (xs ! i)) [0..<length xs] = map f xs"
  by (rule nth_equalityI) simp_all

lemma pages_fold_project:
  assumes "\<And>st page. map f (allChunks (pageStep enc sz ovl st page)) =
             map f (allChunks st) @ g page"
  shows "map f (allChunks (foldl (pageStep enc sz ovl) st pages)) =
           map f (allChunks st) @ concat (map g pages)"
proof (induction pages arbitrary: st)
  case Nil
  show ?case by simp
next
  case (Cons p ps)
  show ?case
    by (simp add: Cons.IH assms)
qed

lemma chunkPages_project:
  assumes "\<And>st page. map f (allChunks (pageStep enc (resolveChunkSize options) (chunkOverlap options) st page)) =
             map f (allChunks st) @ g page"
  shows "map f (chunkPages enc pages options) = concat (map g pages)"
  unfolding chunkPages_def
  using pages_fold_project [of f enc "resolveChunkSize options" "chunkOverlap options" g
      "\<lparr>allChunks = [], chunkId = 0\<rparr>" pages, OF assms]
  by simp

text \<open>
  Claim C7. For every page that \<open>chunkPages\<close> processes, its chunks stand in the output
  in the order in which \<open>chunkContent\<close> produced them from the page (document order),
  their \<open>chunk_index\<close> values are \<open>0, 1, ...\<close> up to the number of chunks of the page
  minus one, \<open>total_chunks\<close> is the number of chunks of that page, and the \<open>tokenCount\<close>
  of every chunk is \<open>countTokens\<close> of its content.
\<close>

theorem chunkPages_per_page:
  "map chunk_content (chunkPages enc pages options) =
     concat (map (\<lambda>page. chunkContent enc (content page) (resolveChunkSize options)
                            (chunkOverlap options)) pages) \<and>
   map (chunk_index \<circ> metadata) (chunkPages enc pages options) =
     concat (map (\<lambda>page. [0..<length (chunkContent enc (content page)
                            (resolveChunkSize options) (chunkOverlap options))]) pages) \<and>
   map (total_chunks \<circ> metadata) (chunkPages enc pages options) =
     concat (map (\<lambda>page. replicate
                    (length (chunkContent enc (content page) (resolveChunkSize options)
                               (chunkOverlap options)))
                    (length (chunkContent enc (content page) (resolveChunkSize options)
                               (chunkOverlap options)))) pages) \<and>
   map tokenCount (chunkPages enc pages options) =
     map (countTokens enc \<circ> chunk_content) (chunkPages enc pages options)"
proof -
  let ?ts = "\<lambda>page. chunkContent enc (content page) (resolveChunkSize options)
                            (chunkOverlap options)"
  have c: "map chunk_content (chunkPages enc pages options) = concat (map ?ts pages)"
    by (rule chunkPages_project) (simp add: pageStep_chunks Let_def o_def map_nth)
  have i: "map (chunk_index \<circ> metadata) (chunkPages enc pages options) =
             concat (map (\<lambda>page. [0..<length (?ts page)]) pages)"
    by (rule chunkPages_project) (simp add: pageStep_chunks Let_def o_def)
  have t: "map (total_chunks \<circ> metadata) (chunkPages enc pages options) =
             concat (map (\<lambda>page. replicate (length (?ts page)) (length (?ts page))) pages)"
    by (rule chunkPages_project) (simp add: pageStep_chunks Let_def o_def map_replicate_const)
  have "map tokenCount (chunkPages enc pages options) =
          concat (map (\<lambda>page. map (countTokens enc) (?ts page)) pages)"
    by (rule chunkPages_project)
      (simp add: pageStep_chunks Let_def o_def map_nth_upt)
  also have "\<dots> = map (countTokens enc) (concat (map ?ts pages))"
    by (simp add: map_concat o_def)
  also have "\<dots> = map (countTokens enc) (map chunk_content (chunkPages enc pages options))"
    by (simp only: c)
  finally have k: "map tokenCount (chunkPages enc pages options) =
      map (countTokens enc \<circ> chunk_content) (chunkPages enc pages options)"
    by simp
  from c i t k show ?thesis by blast
qed

section \<open>The ids of a run\<close>

lemma chunkPages_contents:
  "map chunk_content (chunkPages enc pages options) =
     concat (map (\<lambda>page. chunkContent enc (content page) (resolveChunkSize options)
                            (chunkOverlap options)) pages)"
  by (rule chunkPages_project) (simp add: pageStep_chunks Let_def o_def map_nth)

lemma isDigit_digitChar: "d < 10 \<Longrightarrow> isDigit (digitChar d)"
  by (simp add: isDigit_def digitChar_def)

lemma digitChar_less: "a < b \<Longrightarrow> b < 10 \<Longrightarrow> digitChar a < digitChar b"
  by (simp add: digitChar_def less_char_def)

lemma digitChar_0: "digitChar 0 = CHR ''0''"
  by code_simp

lemma numberToString_digits: "\<forall>c\<in>set (numberToString n). isDigit c"
proof (induction n rule: numberToString.induct)
  case (1 n)
  show ?case
  proof (cases "n < 10")
    case True
    then show ?thesis
      by (subst numberToString.simps) (simp add: isDigit_digitChar)
  next
    case False
    then show ?thesis
      using "1.IH" by (subst numberToString.simps) (simp add: isDigit_digitChar)
  qed
qed

lemma numberToString_long: "10 ^ k \<le> n \<Longrightarrow> k < length (numberToString n)"
proof (induction n arbitrary: k rule: numberToString.induct)
  case (1 n)
  show ?case
  proof (cases "n < 10")
    case True
    have "k = 0"
    proof (cases k)
      case 0
      then show ?thesis .
    next
      case (Suc j)
      have a: "(10::nat) \<le> 10 * 10 ^ j"
        by simp
      have b: "10 * 10 ^ j \<le> n"
        using "1.prems" unfolding Suc by simp
      from a b True show ?thesis
        by linarith
    qed
    then show ?thesis
      using True by (subst numberToString.simps) simp
  next
    case False
    show ?thesis
    proof (cases k)
      case 0
      then show ?thesis
        using False by (subst numberToString.simps) simp
    next
      case (Suc j)
      then have "10 ^ j \<le> n div 10"
        using "1.prems" by simp
      then have "j < length (numberToString (n div 10))"
        using "1.IH" False by simp
      then show ?thesis
        using False Suc by (subst numberToString.simps) simp
    qed
  qed
qed

lemma length_fixedDigits: "length (fixedDigits k n) = k"
  by (induction k arbitrary: n) simp_all

lemma fixedDigits_0: "fixedDigits k 0 = replicate k (CHR ''0'')"
  by (induction k) (simp_all add: digitChar_0 replicate_append_same)

lemma fixedDigits_digits: "\<forall>c\<in>set (fixedDigits k n). isDigit c"
  by (induction k arbitrary: n) (simp_all add: isDigit_digitChar)

lemma padStart_snoc: "padStart (Suc k) z (xs @ [d]) = padStart k z xs @ [d]"
  by (simp add: padStart_def)

lemma padStart_fixedDigits:
  "n < 10 ^ k \<Longrightarrow> 0 < k \<Longrightarrow> padStart k (CHR ''0'') (numberToString n) = fixedDigits k n"
proof (induction n arbitrary: k rule: numberToString.induct)
  case (1 n)
  from "1.prems"(2) obtain j where k: "k = Suc j"
    by (cases k) simp_all
  show ?case
  proof (cases "n < 10")
    case True
    have "numberToString n = [] @ [digitChar n]"
      using True by (subst numberToString.simps) simp
    then have "padStart k (CHR ''0'') (numberToString n) = padStart j (CHR ''0'') [] @ [digitChar n]"
      unfolding k by (simp only: padStart_snoc)
    then show ?thesis
      using True by (simp add: k fixedDigits_0 padStart_def)
  next
    case False
    have s: "numberToString n = numberToString (n div 10) @ [digitChar (n mod 10)]"
      using False by (subst numberToString.simps) simp
    have small: "n div 10 < 10 ^ j"
      using "1.prems"(1) by (simp add: k less_mult_imp_div_less mult.commute)
    have "0 < j"
      using False small by (cases j) simp_all
    then have "padStart j (CHR ''0'') (numberToString (n div 10)) = fixedDigits j (n div 10)"
      using "1.IH" False small by simp
    then show ?thesis
      unfolding k s by (simp only: padStart_snoc fixedDigits.simps)
  qed
qed

lemma less_snoc:
  fixes xs ys :: string
  shows "length xs = length ys \<Longrightarrow> xs @ [a] < ys @ [b] \<longleftrightarrow> xs < ys \<or> (xs = ys \<and> a < b)"
  by (induction xs ys rule: list_induct2) auto

lemma fixedDigits_less: "i < j \<Longrightarrow> j < 10 ^ k \<Longrightarrow> fixedDigits k i < fixedDigits k j"
proof (induction k arbitrary: i j)
  case 0
  then show ?case by simp
next
  case (Suc k)
  have le: "i div 10 \<le> j div 10"
    using Suc.prems(1) by (simp add: div_le_mono)
  have small: "j div 10 < 10 ^ k"
    using Suc.prems(2) by (simp add: less_mult_imp_div_less mult.commute)
  have len: "length (fixedDigits k (i div 10)) = length (fixedDigits k (j div 10))"
    by (simp add: length_fixedDigits)
  show ?case
  proof (cases "i div 10 < j div 10")
    case True
    then have "fixedDigits k (i div 10) < fixedDigits k (j div 10)"
      using small by (rule Suc.IH)
    then show ?thesis
      by (simp add: less_snoc [OF len])
  next
    case False
    then have eq: "i div 10 = j div 10"
      using le by simp
    then have "i mod 10 < j mod 10"
      using Suc.prems(1) by (metis div_mult_mod_eq nat_add_left_cancel_less)
    then have "digitChar (i mod 10) < digitChar (j mod 10)"
      by (rule digitChar_less) simp
    then show ?thesis
      by (simp add: eq less_snoc)
  qed
qed

lemma chunkIdString_short: "i < 10000 \<Longrightarrow> chunkIdString i = ''chunk-'' @ fixedDigits 4 i"
  using padStart_fixedDigits [of i 4] by (simp add: chunkIdString_def)

lemma chunkIdString_long: "10000 \<le> i \<Longrightarrow> chunkIdString i = ''chunk-'' @ numberToString i"
  using numberToString_long [of 4 i] by (simp add: chunkIdString_def padStart_def)

lemma chunkIdString_less: "i < j \<Longrightarrow> j < 10000 \<Longrightarrow> chunkIdString i < chunkIdString j"
  using fixedDigits_less [of i j 4] by (simp add: chunkIdString_short)

lemma chunkIdString_form:
  "take 6 (chunkIdString i) = ''chunk-'' \<and>
   (\<forall>c\<in>set (drop 6 (chunkIdString i)). isDigit c) \<and>
   (i < 10000 \<longrightarrow> length (drop 6 (chunkIdString i)) = 4) \<and>
   (10000 \<le> i \<longrightarrow> 4 < length (drop 6 (chunkIdString i)))"
proof (cases "i < 10000")
  case True
  then show ?thesis
    by (simp add: chunkIdString_short fixedDigits_digits length_fixedDigits)
next
  case False
  then show ?thesis
    using numberToString_long [of 4 i]
    by (simp add: chunkIdString_long numberToString_digits)
qed

lemma chunkIdString_sorted:
  "m \<le> 10000 \<Longrightarrow> sorted_wrt (<) (take m (map chunkIdString [0..<n]))"
proof -
  assume m: "m \<le> 10000"
  have "take m [0..<n] = [0..<min m n]"
  proof (cases "m \<le> n")
    case True
    then show ?thesis
      using take_upt [of 0 m n] by (simp add: min_def)
  next
    case False
    then show ?thesis
      by (simp add: min_def)
  qed
  then have "take m (map chunkIdString [0..<n]) = map chunkIdString [0..<min m n]"
    by (simp only: take_map)
  moreover have "sorted_wrt (<) (map chunkIdString [0..<min m n])"
    using m by (simp add: sorted_wrt_iff_nth_less chunkIdString_less)
  ultimately show ?thesis
    by simp
qed

lemma chunkPages_id_nth:
  "i < length (chunkPages enc pages options) \<Longrightarrow>
   chunk_id (chunkPages enc pages options ! i) = chunkIdString i"
proof -
  assume i: "i < length (chunkPages enc pages options)"
  then have "chunk_id (chunkPages enc pages options ! i) =
      map chunk_id (chunkPages enc pages options) ! i"
    by simp
  also have "\<dots> = map chunkIdString [0..<length (chunkPages enc pages options)] ! i"
    by (simp only: chunkPages_id_list)
  also have "\<dots> = chunkIdString i"
    using i by simp
  finally show ?thesis .
qed

text \<open>
  Claim C6, amended. Over a whole run of \<open>chunkPages\<close>, on any list of pages, the ids
  come from one counter that starts at 0 and is not reset between pages: the chunk at
  position \<open>i\<close> of the output has the id \<open>chunk-\<close> followed by the decimal digits of
  \<open>i\<close>, padded with zeros on the left to four digits. For the first 10000 chunks that
  is the form \<open>chunk-NNNN\<close>, four digits; from position 10000 on the number has more
  than four digits, since \<open>padStart\<close> pads and never shortens. The numbers read back
  from the ids are \<open>0, 1, 2, ...\<close> in the order of emission, so they increase strictly,
  and the ids are pairwise distinct. As strings the ids increase strictly among the
  first 10000 chunks.
\<close>

theorem chunkPages_ids:
  "map chunk_id (chunkPages enc pages options) =
     map chunkIdString [0..<length (chunkPages enc pages options)] \<and>
   (\<forall>i<length (chunkPages enc pages options).
      take 6 (chunk_id (chunkPages enc pages options ! i)) = ''chunk-'' \<and>
      (\<forall>c\<in>set (drop 6 (chunk_id (chunkPages enc pages options ! i))). isDigit c) \<and>
      (i < 10000 \<longrightarrow> length (drop 6 (chunk_id (chunkPages enc pages options ! i))) = 4) \<and>
      (10000 \<le> i \<longrightarrow> 4 < length (drop 6 (chunk_id (chunkPages enc pages options ! i))))) \<and>
   map (idNumber \<circ> chunk_id) (chunkPages enc pages options) =
     [0..<length (chunkPages enc pages options)] \<and>
   sorted_wrt (<) (map (idNumber \<circ> chunk_id) (chunkPages enc pages options)) \<and>
   distinct (map chunk_id (chunkPages enc pages options)) \<and>
   sorted_wrt (<) (take 10000 (map chunk_id (chunkPages enc pages options)))"
proof -
  let ?cs = "chunkPages enc pages options"
  have ids: "map chunk_id ?cs = map chunkIdString [0..<length ?cs]"
    by (rule chunkPages_id_list)
  have form: "\<forall>i<length ?cs.
      take 6 (chunk_id (?cs ! i)) = ''chunk-'' \<and>
      (\<forall>c\<in>set (drop 6 (chunk_id (?cs ! i))). isDigit c) \<and>
      (i < 10000 \<longrightarrow> length (drop 6 (chunk_id (?cs ! i))) = 4) \<and>
      (10000 \<le> i \<longrightarrow> 4 < length (drop 6 (chunk_id (?cs ! i))))"
  proof (intro allI impI)
    fix i
    assume "i < length ?cs"
    then have e: "chunk_id (?cs ! i) = chunkIdString i"
      by (rule chunkPages_id_nth)
    show "take 6 (chunk_id (?cs ! i)) = ''chunk-'' \<and>
      (\<forall>c\<in>set (drop 6 (chunk_id (?cs ! i))). isDigit c) \<and>
      (i < 10000 \<longrightarrow> length (drop 6 (chunk_id (?cs ! i))) = 4) \<and>
      (10000 \<le> i \<longrightarrow> 4 < length (drop 6 (chunk_id (?cs ! i))))"
      unfolding e by (rule chunkIdString_form)
  qed
  have "map idNumber (map chunk_id ?cs) = map idNumber (map chunkIdString [0..<length ?cs])"
    using ids by (rule arg_cong)
  then have nums: "map (idNumber \<circ> chunk_id) ?cs = [0..<length ?cs]"
    by (simp add: o_def idNumber_chunkIdString)
  have inj: "inj_on chunkIdString (set [0..<length ?cs])"
    by (rule inj_onI) (rule chunkIdString_inj)
  have "distinct (map chunkIdString [0..<length ?cs])"
    using inj by (simp add: distinct_map)
  then have dist: "distinct (map chunk_id ?cs)"
    using ids by simp
  have "sorted_wrt (<) [0..<length ?cs]"
    by simp
  then have incr: "sorted_wrt (<) (map (idNumber \<circ> chunk_id) ?cs)"
    using nums by simp
  have "sorted_wrt (<) (take 10000 (map chunkIdString [0..<length ?cs]))"
    by (rule chunkIdString_sorted) simp
  then have lex: "sorted_wrt (<) (take 10000 (map chunk_id ?cs))"
    by (simp only: ids)
  from ids form nums incr dist lex show ?thesis
    by (intro conjI)
qed

theorem chunkPages_ids_witness:
  "map chunk_id
     (chunkPages unitEncoder
      [\<lparr>url = ''u'', page_title = ''t'', content = [CHR ''a'', newline, newline, CHR ''b''], headings = []\<rparr>,
       \<lparr>url = ''v'', page_title = ''w'', content = ''c'', headings = []\<rparr>]
      \<lparr>chunkSize = 1, chunkOverlap = 0, outputFormat = ''rag''\<rparr>) =
     [''chunk-0000'', ''chunk-0001'', ''chunk-0002''] \<and>
   take 6 (chunk_id
     (chunkPages unitEncoder
      [\<lparr>url = ''u'', page_title = ''t'', content = [CHR ''a'', newline, newline, CHR ''b''], headings = []\<rparr>,
       \<lparr>url = ''v'', page_title = ''w'', content = ''c'', headings = []\<rparr>]
      \<lparr>chunkSize = 1, chunkOverlap = 0, outputFormat = ''rag''\<rparr> ! 2)) = ''chunk-'' \<and>
   length (drop 6 (chunk_id
     (chunkPages unitEncoder
      [\<lparr>url = ''u'', page_title = ''t'', content = [CHR ''a'', newline, newline, CHR ''b''], headings = []\<rparr>,
       \<lparr>url = ''v'', page_title = ''w'', content = ''c'', headings = []\<rparr>]
      \<lparr>chunkSize = 1, chunkOverlap = 0, outputFormat = ''rag''\<rparr> ! 2))) = 4"
proof -
  let ?cs = "chunkPages unitEncoder
      [\<lparr>url = ''u'', page_title = ''t'', content = [CHR ''a'', newline, newline, CHR ''b''], headings = []\<rparr>,
       \<lparr>url = ''v'', page_title = ''w'', content = ''c'', headings = []\<rparr>]
      \<lparr>chunkSize = 1, chunkOverlap = 0, outputFormat = ''rag''\<rparr>"
  have l: "length ?cs = 3"
    by code_simp
  have ev: "map chunkIdString [0..<3] = [''chunk-0000'', ''chunk-0001'', ''chunk-0002'']"
    by code_simp
  note th = chunkPages_ids [of unitEncoder
      "[\<lparr>url = ''u'', page_title = ''t'', content = [CHR ''a'', newline, newline, CHR ''b''], headings = []\<rparr>,
        \<lparr>url = ''v'', page_title = ''w'', content = ''c'', headings = []\<rparr>]"
      "\<lparr>chunkSize = 1, chunkOverlap = 0, outputFormat = ''rag''\<rparr>"]
  have "map chunk_id ?cs = map chunkIdString [0..<length ?cs]"
    using th by (rule conjunct1)
  then have ids: "map chunk_id ?cs = [''chunk-0000'', ''chunk-0001'', ''chunk-0002'']"
    unfolding l ev .
  have two: "2 < length ?cs"
    unfolding l by simp
  have "take 6 (chunk_id (?cs ! 2)) = ''chunk-'' \<and>
      (\<forall>c\<in>set (drop 6 (chunk_id (?cs ! 2))). isDigit c) \<and>
      (2 < (10000::nat) \<longrightarrow> length (drop 6 (chunk_id (?cs ! 2))) = 4) \<and>
      ((10000::nat) \<le> 2 \<longrightarrow> 4 < length (drop 6 (chunk_id (?cs ! 2))))"
    using th [THEN conjunct2, THEN conjunct1, rule_format, OF two] .
  then have form: "take 6 (chunk_id (?cs ! 2)) = ''chunk-'' \<and>
      length (drop 6 (chunk_id (?cs ! 2))) = 4"
    by simp
  from ids form show ?thesis
    by (intro conjI) simp_all
qed

lemma concat_replicate_single: "concat (replicate m [x]) = replicate m x"
  by (induction m) simp_all

lemma chunkPages_replicate_length:
  assumes "chunkContent enc (content page) (resolveChunkSize options) (chunkOverlap options) = [x]"
  shows "length (chunkPages enc (replicate m page) options) = m"
proof -
  have "length (map chunk_content (chunkPages enc (replicate m page) options)) = m"
    unfolding chunkPages_contents
    by (simp add: assms concat_replicate_single)
  then show ?thesis
    by simp
qed

text \<open>
  The claim as stated says that every id has four digits and that the ids increase. A
  run over 10001 pages of one chunk each gives the ids \<open>chunk-9999\<close> and then
  \<open>chunk-10000\<close>: five digits, and as a string smaller than the id before it.
\<close>

theorem chunkPages_ids_counterexample:
  "chunk_id (chunkPages unitEncoder (replicate 10001 \<lparr>url = [], page_title = [], content = ''a'', headings = []\<rparr>)
      \<lparr>chunkSize = 500, chunkOverlap = 0, outputFormat = ''rag''\<rparr> ! 9999) = ''chunk-9999'' \<and>
   chunk_id (chunkPages unitEncoder (replicate 10001 \<lparr>url = [], page_title = [], content = ''a'', headings = []\<rparr>)
      \<lparr>chunkSize = 500, chunkOverlap = 0, outputFormat = ''rag''\<rparr> ! 10000) = ''chunk-10000'' \<and>
   ''chunk-10000'' < ''chunk-9999''"
proof -
  let ?cs = "chunkPages unitEncoder (replicate 10001 \<lparr>url = [], page_title = [], content = ''a'', headings = []\<rparr>)
      \<lparr>chunkSize = 500, chunkOverlap = 0, outputFormat = ''rag''\<rparr>"
  have one: "chunkContent unitEncoder ''a'' 500 0 = [''a'']"
    by code_simp
  have "chunkContent unitEncoder (content \<lparr>url = [], page_title = [], content = ''a'', headings = []\<rparr>)
      (resolveChunkSize \<lparr>chunkSize = 500, chunkOverlap = 0, outputFormat = ''rag''\<rparr>)
      (chunkOverlap \<lparr>chunkSize = 500, chunkOverlap = 0, outputFormat = ''rag''\<rparr>) = [''a'']"
    by (simp add: resolveChunkSize_def one)
  then have len: "length ?cs = 10001"
    by (rule chunkPages_replicate_length)
  have "(9999::nat) < 10001" and "(10000::nat) < 10001"
    by simp_all
  then have i: "9999 < length ?cs" and j: "10000 < length ?cs"
    unfolding len .
  have a: "chunk_id (?cs ! 9999) = chunkIdString 9999"
    using i by (rule chunkPages_id_nth)
  have b: "chunk_id (?cs ! 10000) = chunkIdString 10000"
    using j by (rule chunkPages_id_nth)
  have dg: "digitChar 0 = CHR ''0'' \<and> digitChar (Suc 0) = CHR ''1'' \<and> digitChar 9 = CHR ''9''"
    by code_simp
  have n1: "numberToString 10000 =
      [digitChar 1, digitChar 0, digitChar 0, digitChar 0, digitChar 0]"
    by (simp add: numberToString.simps)
  have n2: "numberToString 9999 = [digitChar 9, digitChar 9, digitChar 9, digitChar 9]"
    by (simp add: numberToString.simps)
  have c: "chunkIdString 9999 = ''chunk-9999'' \<and> chunkIdString 10000 = ''chunk-10000''"
    by (simp add: chunkIdString_def padStart_def n1 n2 dg)
  have a': "chunk_id (?cs ! 9999) = ''chunk-9999''"
    unfolding a by (rule c [THEN conjunct1])
  have b': "chunk_id (?cs ! 10000) = ''chunk-10000''"
    unfolding b by (rule c [THEN conjunct2])
  have d: "''chunk-10000'' < ''chunk-9999''"
    by (simp add: less_char_def)
  from a' b' d show ?thesis
    by (intro conjI)
qed

section \<open>Default sizes and the standalone variant\<close>







section \<open>Trimming and texts without a split point\<close>

lemma trim_Nil_iff: "trim s = [] \<longleftrightarrow> (\<forall>c\<in>set s. isWhiteSpace c)"
proof
  assume "trim s = []"
  then have a: "\<forall>c\<in>set (dropWhile isWhiteSpace s). isWhiteSpace c"
    by (simp add: trim_def)
  have "dropWhile isWhiteSpace s = []"
  proof (rule ccontr)
    assume n: "dropWhile isWhiteSpace s \<noteq> []"
    then have "\<not> isWhiteSpace (hd (dropWhile isWhiteSpace s))"
      by (rule hd_dropWhile)
    moreover have "hd (dropWhile isWhiteSpace s) \<in> set (dropWhile isWhiteSpace s)"
      using n by simp
    ultimately show False
      using a by blast
  qed
  then show "\<forall>c\<in>set s. isWhiteSpace c"
    by simp
next
  assume "\<forall>c\<in>set s. isWhiteSpace c"
  then show "trim s = []"
    by (auto simp: trim_def dest: set_dropWhileD)
qed

lemma no_blank_line_one_paragraph:
  "\<not> hasBlankLine s \<Longrightarrow> jsSplit matchBlankLines prev cur s = [cur @ s]"
proof (induction s arbitrary: prev cur)
  case Nil
  show ?case by simp
next
  case (Cons c cs)
  have rest: "\<not> hasBlankLine cs"
    using Cons.prems by (cases cs) simp_all
  have "length (takeWhile (\<lambda>x. x = newline) (c # cs)) < 2"
    using Cons.prems by (cases cs) auto
  then have "matchBlankLines prev (c # cs) = 0"
    by (simp add: matchBlankLines_def Let_def)
  then show ?case
    using Cons.IH [OF rest] by simp
qed

lemma no_boundary_one_sentence:
  "\<not> hasSentenceBoundary s \<Longrightarrow>
   (\<forall>p. prev = Some p \<longrightarrow> isSentenceEnd p \<longrightarrow> s = [] \<or> \<not> isWhiteSpace (hd s)) \<Longrightarrow>
   jsSplit matchSentenceGap prev cur s = [cur @ s]"
proof (induction s arbitrary: prev cur)
  case Nil
  show ?case by simp
next
  case (Cons c cs)
  have rest: "\<not> hasSentenceBoundary cs"
    using Cons.prems(1) by (cases cs) simp_all
  have nxt: "\<forall>p. Some c = Some p \<longrightarrow> isSentenceEnd p \<longrightarrow> cs = [] \<or> \<not> isWhiteSpace (hd cs)"
    using Cons.prems(1) by (cases cs) auto
  have "matchSentenceGap prev (c # cs) = 0"
    using Cons.prems(2) by (cases prev) (simp_all add: matchSentenceGap_def)
  then show ?case
    using Cons.IH [OF rest nxt] by simp
qed

text \<open>
  Claim C3. A single sentence that cannot be divided and is longer than \<open>chunkSize\<close> is
  kept whole: when the content is one paragraph (it has no blank line), has no sentence
  boundary (no white space right after \<open>.\<close>, \<open>!\<close> or \<open>?\<close>), is a sentence and so not only
  white space, and its token count is above \<open>chunkSize\<close>, then \<open>chunkContent\<close> returns
  exactly one chunk, the trimmed content, although it is over the budget.
\<close>

theorem single_sentence_kept_whole:
  assumes "\<not> hasBlankLine c"
    and "\<not> hasSentenceBoundary c"
    and "n < int (countTokens enc c)"
    and "trim c \<noteq> []"
  shows "chunkContent enc c n k = [trim c]"
proof -
  have p: "splitParagraphs c = [c]"
    using no_blank_line_one_paragraph [OF assms(1), of None "[]"]
    by (simp add: splitParagraphs_def)
  have s: "splitSentences c = [c]"
    using no_boundary_one_sentence [OF assms(2), of None "[]"]
    by (simp add: splitSentences_def)
  show ?thesis
    using assms(3,4)
    by (simp add: chunkContent_def p s paragraphStep_def sentenceStep_def appendPiece_def Let_def)
qed


theorem single_sentence_kept_whole_witness:
  "\<not> hasBlankLine ''  An unbroken sentence, all of it '' \<and>
   \<not> hasSentenceBoundary ''  An unbroken sentence, all of it '' \<and>
   (5::int) < int (countTokens unitEncoder ''  An unbroken sentence, all of it '') \<and>
   chunkContent unitEncoder ''  An unbroken sentence, all of it '' 5 2 =
     [''An unbroken sentence, all of it'']"
proof -
  have a: "\<not> hasBlankLine ''  An unbroken sentence, all of it ''"
    by code_simp
  have b: "\<not> hasSentenceBoundary ''  An unbroken sentence, all of it ''"
    by code_simp
  have c: "(5::int) < int (countTokens unitEncoder ''  An unbroken sentence, all of it '')"
    by (simp add: countTokens_def unitEncoder_def)
  have d: "trim ''  An unbroken sentence, all of it '' = ''An unbroken sentence, all of it''"
    by code_simp
  have e: "trim ''  An unbroken sentence, all of it '' \<noteq> []"
    unfolding d by simp
  have "chunkContent unitEncoder ''  An unbroken sentence, all of it '' 5 2 =
          [trim ''  An unbroken sentence, all of it '']"
    by (rule single_sentence_kept_whole [OF a b c e])
  then have r: "chunkContent unitEncoder ''  An unbroken sentence, all of it '' 5 2 =
          [''An unbroken sentence, all of it'']"
    unfolding d .
  from a b c r show ?thesis
    by (intro conjI)
qed

section \<open>Content of white space only\<close>

text \<open>The empty content gives no chunk, whatever the size, the overlap and the encoder.\<close>

lemma chunkContent_empty: "chunkContent enc [] n k = []"
  by (simp add: chunkContent_def splitParagraphs_def splitSentences_def paragraphStep_def
      sentenceStep_def appendPiece_def Let_def trim_def)

lemma overlapLoop_empty_words:
  "\<forall>w\<in>set ws. w = [] \<Longrightarrow> overlapLoop enc b ws [] t = []"
  by (induction ws arbitrary: t) (simp_all add: Let_def)

lemma splitWords_white:
  "\<forall>c\<in>set s. isWhiteSpace c \<Longrightarrow> splitWords s = (if s = [] then [[]] else [[], []])"
proof (cases s)
  case Nil
  then show ?thesis by (simp add: splitWords_def)
next
  case (Cons c cs)
  assume "\<forall>c\<in>set s. isWhiteSpace c"
  then have "takeWhile isWhiteSpace (c # cs) = c # cs"
    unfolding Cons by (simp only: takeWhile_eq_all_conv) 
  then have "matchWhiteSpace None (c # cs) = Suc (length cs)"
    by (simp add: matchWhiteSpace_def)
  then show ?thesis
    unfolding Cons splitWords_def by (simp del: takeWhile.simps)
qed

lemma getOverlapText_white:
  "\<forall>c\<in>set s. isWhiteSpace c \<Longrightarrow> getOverlapText enc s k = []"
  by (simp add: getOverlapText_def splitWords_white overlapLoop_empty_words)


lemma blank_example_paragraphs:
  "splitParagraphs [CHR '' '', CHR '' '', CHR '' '', newline, newline, CHR '' '', CHR '' ''] = [''   '', ''  '']"
  by (simp add: splitParagraphs_def matchBlankLines_def newline_def Let_def)

lemma blank_example_sentences:
  "splitSentences ''   '' = [''   ''] \<and> splitSentences ''  '' = [''  '']"
  by (simp add: splitSentences_def matchSentenceGap_def isSentenceEnd_def)

lemma blank_example_white:
  "(\<forall>c\<in>set ''   ''. isWhiteSpace c) \<and> (\<forall>c\<in>set ''  ''. isWhiteSpace c) \<and>
   (\<forall>c\<in>set (g @ [newline, newline] @ ''  ''). isWhiteSpace c) = (\<forall>c\<in>set g. isWhiteSpace c)"
  by (auto simp add: isWhiteSpace_def newline_def)

text \<open>
  Claim C2. The claim is that \<open>chunkContent\<close> gives no chunk for the empty string and
  for every content of white space only, for every \<open>chunkSize\<close> above 0 and every overlap.
  The code does so for the empty string (lemma \<open>chunkContent_empty\<close>). For the content
  of three spaces, two newlines and two spaces and \<open>chunkSize\<close> 1 it does not: with an
  encoder that gives at least one token to a non-empty text, the first paragraph fills
  the budget, the second one makes the code push the accumulator, trimmed, without the
  test for emptiness that the push after the loop has, and the result is one empty chunk.
\<close>

theorem blank_content_empty_chunk:
  assumes "\<forall>s. s \<noteq> [] \<longrightarrow> enc s \<noteq> []"
  shows "chunkContent enc [CHR '' '', CHR '' '', CHR '' '', newline, newline, CHR '' '', CHR '' ''] 1 k = [[]]"
proof -
  have a: "1 \<le> countTokens enc ''   ''"
    using assms [rule_format, of "''   ''"] by (simp add: countTokens_def Suc_le_eq)
  have b: "1 \<le> countTokens enc ''  ''"
    using assms [rule_format, of "''  ''"] by (simp add: countTokens_def Suc_le_eq)
  have t3: "trim ''   '' = []" and t2: "trim ''  '' = []"
    by (simp_all add: trim_Nil_iff blank_example_white)
  have o: "getOverlapText enc ''   '' k = []"
    by (rule getOverlapText_white) (simp add: blank_example_white)
  have t5: "trim [newline, newline, CHR '' '', CHR '' ''] = []"
    by (simp add: trim_Nil_iff isWhiteSpace_def newline_def)
  show ?thesis
    using a b
    by (simp add: chunkContent_def blank_example_paragraphs blank_example_sentences
        paragraphStep_def sentenceStep_def flushChunk_def appendPiece_def Let_def t3 t2 o t5)
qed

theorem blank_content_empty_chunk_witness:
  "chunkContent unitEncoder
     [CHR '' '', CHR '' '', CHR '' '', newline, newline, CHR '' '', CHR '' ''] 1 0 = [[]]"
  using blank_content_empty_chunk [of unitEncoder 0]
  by (simp add: unitEncoder_def)

section \<open>Termination\<close>

lemma overlapWhile_returns:
  "m \<le> length ws \<Longrightarrow>
   overlapWhile enc b ws (int m - 1) result tokens =
     Some (overlapLoop enc b (rev (take m ws)) result tokens)"
proof (induction m arbitrary: result tokens)
  case 0
  show ?case
    by (subst overlapWhile.simps) simp
next
  case (Suc m)
  then have m: "m < length ws" and le: "m \<le> length ws"
    by simp_all
  have tk: "rev (take (Suc m) ws) = ws ! m # rev (take m ws)"
    using m by (simp add: take_Suc_conv_app_nth)
  have i: "int (Suc m) - 1 = int m" and j: "nat (int m) = m"
    by simp_all
  show ?case
    unfolding i tk
    by (subst overlapWhile.simps) (simp add: Suc.IH [OF le] Let_def)
qed

lemma getOverlapText_run_returns:
  "getOverlapText_run enc t b = Some (getOverlapText enc t b)"
  using overlapWhile_returns [of "length (splitWords t)" "splitWords t" enc b "[]" 0]
  by (simp add: getOverlapText_run_def getOverlapText_def Let_def)

lemma flushChunk_run_returns:
  "flushChunk_run enc k sep st piece = Some (flushChunk enc k sep st piece)"
  by (simp add: flushChunk_run_def flushChunk_def getOverlapText_run_returns Let_def)

lemma sentenceStep_run_returns:
  "sentenceStep_run enc n k st s = Some (sentenceStep enc n k st s)"
  by (simp add: sentenceStep_run_def sentenceStep_def flushChunk_run_returns Let_def)

lemma sentenceWhile_returns:
  "j \<le> length ss \<Longrightarrow>
   sentenceWhile enc n k ss j st = Some (foldl (sentenceStep enc n k) st (drop j ss))"
proof (induction "length ss - j" arbitrary: j st)
  case 0
  then show ?case
    by (subst sentenceWhile.simps) simp
next
  case (Suc d)
  then have lt: "j < length ss" and d: "d = length ss - Suc j" and le: "Suc j \<le> length ss"
    by simp_all
  have dr: "drop j ss = ss ! j # drop (Suc j) ss"
    using lt by (simp add: Cons_nth_drop_Suc)
  show ?case
    unfolding dr
    by (subst sentenceWhile.simps)
      (simp add: lt sentenceStep_run_returns Suc.hyps(1) [OF d le])
qed

lemma paragraphStep_run_returns:
  "paragraphStep_run enc n k st p = Some (paragraphStep enc n k st p)"
  by (simp add: paragraphStep_run_def paragraphStep_def flushChunk_run_returns
      sentenceWhile_returns Let_def)

lemma paragraphWhile_returns:
  "i \<le> length ps \<Longrightarrow>
   paragraphWhile enc n k ps i st = Some (foldl (paragraphStep enc n k) st (drop i ps))"
proof (induction "length ps - i" arbitrary: i st)
  case 0
  then show ?case
    by (subst paragraphWhile.simps) simp
next
  case (Suc d)
  then have lt: "i < length ps" and d: "d = length ps - Suc i" and le: "Suc i \<le> length ps"
    by simp_all
  have dr: "drop i ps = ps ! i # drop (Suc i) ps"
    using lt by (simp add: Cons_nth_drop_Suc)
  show ?case
    unfolding dr
    by (subst paragraphWhile.simps)
      (simp add: lt paragraphStep_run_returns Suc.hyps(1) [OF d le])
qed

text \<open>
  Claim C9. \<open>chunkContent\<close> terminates on every input, for every \<open>chunkSize\<close> and every
  overlap, also when the overlap is as large as \<open>chunkSize\<close> or larger: the run of the
  code with its loops as the source writes them returns, and what it returns is the
  value of \<open>chunkContent\<close>. Every loop goes through the indices of an array that its
  body does not change (the words, the sentences, the paragraphs), so the index decides
  when it ends, not the accumulator.
\<close>

theorem chunkContent_terminates:
  "chunkContent_run enc c n k = Some (chunkContent enc c n k)"
  by (simp add: chunkContent_run_def chunkContent_def paragraphWhile_returns Let_def)

section \<open>The loop of \<open>getOverlapText\<close>\<close>

lemma jsSplit_not_Nil: "jsSplit m prev cur s \<noteq> []"
  by (induction m prev cur s rule: jsSplit.induct) (simp_all add: Let_def)

lemma overlapLoop_taken:
  "\<exists>taken. prefix taken rws \<and>
     overlapLoop enc b rws (accWords done) t = accWords (rev taken @ done)"
proof (induction rws arbitrary: "done" t)
  case Nil
  show ?case by simp
next
  case (Cons w ws)
  show ?case
  proof (cases "int t < b")
    case True
    obtain taken where "prefix taken ws"
      and "overlapLoop enc b ws (accWords (w # done)) (countTokens enc (accWords (w # done))) =
             accWords (rev taken @ w # done)"
      using Cons.IH [of "w # done" "countTokens enc (accWords (w # done))"] by blast
    then have "prefix (w # taken) (w # ws) \<and>
        overlapLoop enc b (w # ws) (accWords done) t = accWords (rev (w # taken) @ done)"
      using True by (simp add: Let_def)
    then show ?thesis by blast
  next
    case False
    then have "prefix [] (w # ws) \<and>
        overlapLoop enc b (w # ws) (accWords done) t = accWords (rev [] @ done)"
      by simp
    then show ?thesis by blast
  qed
qed

lemma overlapLoop_stop:
  "\<exists>taken. prefix taken rws \<and>
     overlapLoop enc b rws (accWords done) (countTokens enc (accWords done)) =
       accWords (rev taken @ done) \<and>
     (taken = rws \<or> b \<le> int (countTokens enc (accWords (rev taken @ done)))) \<and>
     (taken = [] \<or> int (countTokens enc (accWords (rev (butlast taken) @ done))) < b)"
proof (induction rws arbitrary: "done")
  case Nil
  show ?case by simp
next
  case (Cons w ws)
  let ?t = "countTokens enc (accWords done)"
  show ?case
  proof (cases "int ?t < b")
    case True
    obtain taken where p: "prefix taken ws"
      and r: "overlapLoop enc b ws (accWords (w # done)) (countTokens enc (accWords (w # done))) =
             accWords (rev taken @ w # done)"
      and s: "taken = ws \<or> b \<le> int (countTokens enc (accWords (rev taken @ w # done)))"
      and l: "taken = [] \<or> int (countTokens enc (accWords (rev (butlast taken) @ w # done))) < b"
      using Cons.IH [of "w # done"] by blast
    have l': "int (countTokens enc (accWords (rev (butlast (w # taken)) @ done))) < b"
      using l True by (cases "taken = []") simp_all
    have "prefix (w # taken) (w # ws) \<and>
        overlapLoop enc b (w # ws) (accWords done) ?t = accWords (rev (w # taken) @ done) \<and>
        (w # taken = w # ws \<or> b \<le> int (countTokens enc (accWords (rev (w # taken) @ done)))) \<and>
        (w # taken = [] \<or> int (countTokens enc (accWords (rev (butlast (w # taken)) @ done))) < b)"
      using True p r s l' by (simp add: Let_def)
    then show ?thesis by blast
  next
    case False
    then have "prefix [] (w # ws) \<and>
        overlapLoop enc b (w # ws) (accWords done) ?t = accWords (rev [] @ done) \<and>
        ([] = w # ws \<or> b \<le> int (countTokens enc (accWords (rev [] @ done)))) \<and>
        (([]::string list) = [] \<or> int (countTokens enc (accWords (rev (butlast []) @ done))) < b)"
      by simp
    then show ?thesis by blast
  qed
qed


lemma overlapLoop_all:
  "int t < b \<Longrightarrow>
   (\<forall>taken. strict_prefix taken rws \<longrightarrow> taken \<noteq> [] \<longrightarrow>
      int (countTokens enc (accWords (rev taken @ done))) < b) \<Longrightarrow>
   overlapLoop enc b rws (accWords done) t = accWords (rev rws @ done)"
proof (induction rws arbitrary: "done" t)
  case Nil
  show ?case by simp
next
  case (Cons w ws)
  have step: "overlapLoop enc b (w # ws) (accWords done) t =
      overlapLoop enc b ws (accWords (w # done)) (countTokens enc (accWords (w # done)))"
    using Cons.prems(1) by (simp add: Let_def)
  show ?case
  proof (cases ws)
    case Nil
    then show ?thesis
      using step by simp
  next
    case (Cons v vs)
    have "strict_prefix [w] (w # ws)"
      using Cons by (simp add: strict_prefix_def)
    then have t': "int (countTokens enc (accWords (w # done))) < b"
      using Cons.prems(2) [rule_format, of "[w]"] by simp
    have all: "\<forall>taken. strict_prefix taken ws \<longrightarrow> taken \<noteq> [] \<longrightarrow>
        int (countTokens enc (accWords (rev taken @ w # done))) < b"
    proof (intro allI impI)
      fix taken
      assume "strict_prefix taken ws" and "taken \<noteq> []"
      then have "strict_prefix (w # taken) (w # ws)"
        by (simp add: strict_prefix_def)
      then show "int (countTokens enc (accWords (rev taken @ w # done))) < b"
        using Cons.prems(2) [rule_format, of "w # taken"] by simp
    qed
    show ?thesis
      using step Cons.IH [OF t' all] by simp
  qed
qed

lemma accWords_Nil_iff: "accWords s = [] \<longleftrightarrow> (\<forall>w\<in>set s. w = [])"
  by (induction s) auto

lemma dropEmptyTail_Nil_iff: "dropEmptyTail s = [] \<longleftrightarrow> (\<forall>w\<in>set s. w = [])"
  by (simp add: dropEmptyTail_def)

lemma dropEmptyTail_Cons:
  "dropEmptyTail (w # s) =
     (if \<forall>v\<in>set s. v = [] then (if w = [] then [] else [w]) else w # dropEmptyTail s)"
  by (auto simp add: dropEmptyTail_def dropWhile_append)

lemma accWords_joinSpace: "accWords s = joinSpace (dropEmptyTail s)"
proof (induction s)
  case Nil
  show ?case by (simp add: dropEmptyTail_def)
next
  case (Cons w s)
  show ?case
  proof (cases "\<forall>v\<in>set s. v = []")
    case True
    then have "accWords s = []"
      by (simp add: accWords_Nil_iff)
    then show ?thesis
      using True by (simp add: dropEmptyTail_Cons)
  next
    case False
    then have n: "accWords s \<noteq> []"
      by (simp add: accWords_Nil_iff)
    from False obtain v vs where d: "dropEmptyTail s = v # vs"
      using dropEmptyTail_Nil_iff [of s] by (cases "dropEmptyTail s") auto
    show ?thesis
      using False n Cons.IH by (simp add: dropEmptyTail_Cons d)
  qed
qed

lemma dropEmptyTail_suffix:
  "suffix s ws \<Longrightarrow> suffix (dropEmptyTail s) (dropEmptyTail ws)"
proof (cases "\<forall>v\<in>set s. v = []")
  case True
  then show ?thesis
    by (simp add: dropEmptyTail_Nil_iff [THEN iffD2])
next
  case False
  assume "suffix s ws"
  then obtain p where ws: "ws = p @ s"
    by (auto simp add: suffix_def)
  have "dropEmptyTail (p @ s) = p @ dropEmptyTail s"
    using False by (auto simp add: dropEmptyTail_def dropWhile_append)
  then show ?thesis
    by (simp add: ws suffix_def)
qed

lemma dropEmptyTail_tl: "accWords (tl s) = joinSpace (tl (dropEmptyTail s))"
proof (cases s)
  case Nil
  then show ?thesis by (simp add: dropEmptyTail_def)
next
  case (Cons w r)
  show ?thesis
  proof (cases "\<forall>v\<in>set r. v = []")
    case True
    then have "accWords r = []"
      by (simp add: accWords_Nil_iff)
    then show ?thesis
      using True by (simp add: Cons dropEmptyTail_Cons)
  next
    case False
    then have "dropEmptyTail (w # r) = w # dropEmptyTail r"
      by (simp only: dropEmptyTail_Cons if_False)
    then show ?thesis
      by (simp add: Cons accWords_joinSpace)
  qed
qed


lemma splitWords_no_white:
  "\<forall>c\<in>set cur. \<not> isWhiteSpace c \<Longrightarrow>
   \<forall>w\<in>set (jsSplit matchWhiteSpace prev cur s). \<forall>c\<in>set w. \<not> isWhiteSpace c"
proof (induction matchWhiteSpace prev cur s rule: jsSplit.induct)
  case (1 prev cur)
  then show ?case by simp
next
  case (2 prev cur c cs)
  let ?e = "matchWhiteSpace prev (c # cs)"
  show ?case
  proof (cases "?e = 0")
    case True
    then have "\<not> isWhiteSpace c"
      by (simp add: matchWhiteSpace_def split: if_splits)
    then have cur': "\<forall>x\<in>set (cur @ [c]). \<not> isWhiteSpace x"
      using "2.prems" by simp
    have eq: "jsSplit matchWhiteSpace prev cur (c # cs) =
        jsSplit matchWhiteSpace (Some c) (cur @ [c]) cs"
      by (simp only: jsSplit.simps Let_def True if_True simp_thms)
    show ?thesis
      unfolding eq by (rule "2.hyps"(1) [OF refl True cur'])
  next
    case False
    have eq: "jsSplit matchWhiteSpace prev cur (c # cs) =
        cur # jsSplit matchWhiteSpace (Some (last (take ?e (c # cs)))) [] (drop ?e (c # cs))"
      by (simp only: jsSplit.simps Let_def False if_False simp_thms)
    have ih: "\<forall>w\<in>set (jsSplit matchWhiteSpace (Some (last (take ?e (c # cs)))) []
                  (drop ?e (c # cs))). \<forall>c\<in>set w. \<not> isWhiteSpace c"
      by (rule "2.hyps"(2) [OF refl False]) simp
    show ?thesis
      unfolding eq using "2.prems" ih by (simp only: list.set ball_simps)
  qed
qed

section \<open>What \<open>getOverlapText\<close> returns\<close>

lemma prefix_rev_suffix: "prefix taken (rev ws) \<Longrightarrow> suffix (rev taken) ws"
  by (metis suffix_to_prefix rev_rev_ident)

text \<open>
  Claim C5. For every source text and every budget \<open>b\<close> above 0, \<open>getOverlapText\<close> takes
  whole words from the end and stops as soon as the token count of the text it has built
  reaches \<open>b\<close>, keeping the word that made it reach \<open>b\<close>: the result is the join of the
  last words \<open>s\<close> of the text; without its first word the token count is below \<open>b\<close>;
  and either \<open>s\<close> is all the words of the text or the count of the result has reached
  \<open>b\<close>. So the result is over \<open>b\<close> by the tokens of one word at most. The encoder is
  taken to give no token for the empty text, as the contract of the token counter says.
\<close>

theorem getOverlapText_stops:
  assumes "0 < b" and "countTokens enc [] = 0"
  shows "\<exists>s. suffix s (dropEmptyTail (splitWords t)) \<and>
           getOverlapText enc t b = joinSpace s \<and>
           int (countTokens enc (joinSpace (tl s))) < b \<and>
           (s = dropEmptyTail (splitWords t) \<or> b \<le> int (countTokens enc (joinSpace s)))"
proof -
  let ?W = "splitWords t"
  obtain taken where p: "prefix taken (rev ?W)"
    and r: "overlapLoop enc b (rev ?W) (accWords []) (countTokens enc (accWords [])) =
              accWords (rev taken @ [])"
    and s: "taken = rev ?W \<or> b \<le> int (countTokens enc (accWords (rev taken @ [])))"
    and l: "taken = [] \<or> int (countTokens enc (accWords (rev (butlast taken) @ []))) < b"
    using overlapLoop_stop [of "rev ?W" enc b "[]"] by blast
  let ?s = "rev taken"
  have suf: "suffix ?s ?W"
    using p by (rule prefix_rev_suffix)
  have res: "getOverlapText enc t b = accWords ?s"
    using assms r by (simp add: getOverlapText_def)
  have tl: "int (countTokens enc (accWords (tl ?s))) < b"
  proof (cases "taken = []")
    case True
    then show ?thesis using assms by simp
  next
    case False
    have "butlast taken = rev (tl (rev taken))"
      using butlast_rev [of "rev taken"] by simp
    then have "rev (butlast taken) = tl (rev taken)"
      by simp
    then show ?thesis using l False by simp
  qed
  have stop: "?s = ?W \<or> b \<le> int (countTokens enc (accWords ?s))"
    using s by (auto simp add: rev_swap)
  have "suffix (dropEmptyTail ?s) (dropEmptyTail ?W) \<and>
        getOverlapText enc t b = joinSpace (dropEmptyTail ?s) \<and>
        int (countTokens enc (joinSpace (tl (dropEmptyTail ?s)))) < b \<and>
        (dropEmptyTail ?s = dropEmptyTail ?W \<or>
         b \<le> int (countTokens enc (joinSpace (dropEmptyTail ?s))))"
    using dropEmptyTail_suffix [OF suf] res tl stop
    by (auto simp add: accWords_joinSpace [symmetric] dropEmptyTail_tl [symmetric])
  then show ?thesis by blast
qed


theorem getOverlapText_stops_witness:
  "(0::int) < 4 \<and> countTokens unitEncoder [] = 0 \<and>
   getOverlapText unitEncoder ''ab cd ef'' 4 = ''cd ef'' \<and>
   (\<exists>s. suffix s (dropEmptyTail (splitWords ''ab cd ef'')) \<and>
        getOverlapText unitEncoder ''ab cd ef'' 4 = joinSpace s \<and>
        int (countTokens unitEncoder (joinSpace (tl s))) < 4 \<and>
        (s = dropEmptyTail (splitWords ''ab cd ef'') \<or>
         4 \<le> int (countTokens unitEncoder (joinSpace s))))"
proof -
  have a: "(0::int) < 4" by simp
  have b: "countTokens unitEncoder [] = 0"
    by (simp add: countTokens_def unitEncoder_def)
  have c: "getOverlapText unitEncoder ''ab cd ef'' 4 = ''cd ef''"
    by code_simp
  from a b c getOverlapText_stops [OF a b, of "''ab cd ef''"] show ?thesis
    by (intro conjI)
qed

lemma strict_prefix_rev_suffix:
  "strict_prefix taken (rev ws) \<Longrightarrow> strict_suffix (rev taken) ws"
  using prefix_rev_suffix [of taken ws]
  by (auto simp add: strict_prefix_def strict_suffix_def)

text \<open>The result is the join of the last words of the text.\<close>

lemma getOverlapText_last_words:
  assumes "0 < b"
  shows "\<exists>s. suffix s (dropEmptyTail (splitWords t)) \<and> getOverlapText enc t b = joinSpace s"
proof -
  let ?W = "splitWords t"
  obtain taken where p: "prefix taken (rev ?W)"
    and r: "overlapLoop enc b (rev ?W) (accWords []) 0 = accWords (rev taken @ [])"
    using overlapLoop_taken [of "rev ?W" enc b "[]" 0] by blast
  have "getOverlapText enc t b = accWords (rev taken)"
    using assms r by (simp add: getOverlapText_def)
  then have "suffix (dropEmptyTail (rev taken)) (dropEmptyTail ?W) \<and>
        getOverlapText enc t b = joinSpace (dropEmptyTail (rev taken))"
    using dropEmptyTail_suffix [OF prefix_rev_suffix [OF p]]
    by (simp only: accWords_joinSpace simp_thms)
  then show ?thesis
    by blast
qed

text \<open>
  Claim C10, amended. For every source text and every budget above 0 the result of
  \<open>getOverlapText\<close> is the single-space join of some suffix of the list of words, the
  split of the text on runs of white space, after the empty words at the end of that
  list are dropped (a text that ends in white space gives one). No word contains white
  space, so the white space inside the result is the single joining spaces. When every
  shorter non-empty suffix of the list joins to a text with fewer tokens than the
  budget, the result is the join of the whole list: the whole text with its white space
  normalized, not the text itself.
\<close>

theorem getOverlapText_join:
  assumes "0 < b"
  shows "(\<exists>s. suffix s (dropEmptyTail (splitWords t)) \<and> getOverlapText enc t b = joinSpace s) \<and>
         (\<forall>w\<in>set (splitWords t). \<forall>c\<in>set w. \<not> isWhiteSpace c) \<and>
         ((\<forall>s. strict_suffix s (splitWords t) \<longrightarrow> s \<noteq> [] \<longrightarrow>
              int (countTokens enc (joinSpace (dropEmptyTail s))) < b) \<longrightarrow>
          getOverlapText enc t b = joinSpace (dropEmptyTail (splitWords t)))"
proof (intro conjI impI)
  show "\<exists>s. suffix s (dropEmptyTail (splitWords t)) \<and> getOverlapText enc t b = joinSpace s"
    using assms by (rule getOverlapText_last_words)
next
  show "\<forall>w\<in>set (splitWords t). \<forall>c\<in>set w. \<not> isWhiteSpace c"
    unfolding splitWords_def by (rule splitWords_no_white) simp
next
  let ?W = "splitWords t"
  assume all: "\<forall>s. strict_suffix s ?W \<longrightarrow> s \<noteq> [] \<longrightarrow>
      int (countTokens enc (joinSpace (dropEmptyTail s))) < b"
  have "\<forall>taken. strict_prefix taken (rev ?W) \<longrightarrow> taken \<noteq> [] \<longrightarrow>
      int (countTokens enc (accWords (rev taken @ []))) < b"
  proof (intro allI impI)
    fix taken
    assume "strict_prefix taken (rev ?W)" and "taken \<noteq> []"
    then have "strict_suffix (rev taken) ?W" and "rev taken \<noteq> []"
      by (simp_all add: strict_prefix_rev_suffix)
    then show "int (countTokens enc (accWords (rev taken @ []))) < b"
      using all by (simp add: accWords_joinSpace)
  qed
  then have "overlapLoop enc b (rev ?W) (accWords []) 0 = accWords (rev (rev ?W) @ [])"
    using assms by (intro overlapLoop_all) simp_all
  then have "getOverlapText enc t b = accWords ?W"
    using assms by (simp add: getOverlapText_def)
  then show "getOverlapText enc t b = joinSpace (dropEmptyTail ?W)"
    by (simp only: accWords_joinSpace)
qed


theorem getOverlapText_join_witness:
  "(0::int) < 100 \<and>
   (\<exists>s. suffix s (dropEmptyTail (splitWords [CHR ''a'', newline, CHR ''b'', CHR '' ''])) \<and>
        getOverlapText unitEncoder [CHR ''a'', newline, CHR ''b'', CHR '' ''] 100 = joinSpace s) \<and>
   splitWords [CHR ''a'', newline, CHR ''b'', CHR '' ''] = [''a'', ''b'', []] \<and>
   getOverlapText unitEncoder [CHR ''a'', newline, CHR ''b'', CHR '' ''] 100 = ''a b''"
proof -
  let ?t = "[CHR ''a'', newline, CHR ''b'', CHR '' '']"
  have a: "(0::int) < 100" by simp
  have w: "splitWords ?t = [''a'', ''b'', []]"
    by code_simp
  have d: "dropEmptyTail [''a'', ''b'', []] = [''a'', ''b'']"
    by (simp add: dropEmptyTail_def)
  have small: "\<forall>s. strict_suffix s (splitWords ?t) \<longrightarrow> s \<noteq> [] \<longrightarrow>
      int (countTokens unitEncoder (joinSpace (dropEmptyTail s))) < 100"
    unfolding w
    by (auto simp add: strict_suffix_def suffix_Cons countTokens_def unitEncoder_def
        dropEmptyTail_def)
  note th = getOverlapText_join [OF a, of ?t unitEncoder]
  have e: "\<exists>s. suffix s (dropEmptyTail (splitWords ?t)) \<and>
        getOverlapText unitEncoder ?t 100 = joinSpace s"
    using th by (rule conjunct1)
  have "getOverlapText unitEncoder ?t 100 = joinSpace (dropEmptyTail (splitWords ?t))"
    using th small by blast
  then have f: "getOverlapText unitEncoder ?t 100 = ''a b''"
    unfolding w d by simp
  from a e w f show ?thesis
    by (intro conjI)
qed

text \<open>
  The claim as stated, with the list as \<open>split\<close> gives it, fails for a text that ends in
  white space: for \<open>a b \<close> and budget 1 the words are \<open>a\<close>, \<open>b\<close> and the empty word, the
  result is \<open>b\<close>, and no suffix of that list joins to \<open>b\<close> (the suffix \<open>b\<close>, empty word
  joins to \<open>b\<close> followed by a space).
\<close>

theorem getOverlapText_join_counterexample:
  "splitWords ''a b '' = [''a'', ''b'', []] \<and>
   getOverlapText unitEncoder ''a b '' 1 = ''b'' \<and>
   getOverlapText unitEncoder ''a b '' 1 \<notin> joinSpace ` set (suffixes (splitWords ''a b ''))"
proof -
  have w: "splitWords ''a b '' = [''a'', ''b'', []]"
    by code_simp
  have r: "getOverlapText unitEncoder ''a b '' 1 = ''b''"
    by code_simp
  have "''b'' \<notin> joinSpace ` set (suffixes [''a'', ''b'', []])"
    by simp
  with w r show ?thesis
    by simp
qed

section \<open>The overlap text as a trailing substring\<close>

lemma joinSpace_append:
  "p \<noteq> [] \<Longrightarrow> s \<noteq> [] \<Longrightarrow> joinSpace (p @ s) = joinSpace p @ '' '' @ joinSpace s"
proof (induction p rule: joinSpace.induct)
  case 1
  then show ?case by simp
next
  case (2 w)
  then show ?case by (cases s) simp_all
next
  case (3 w v ws)
  then show ?case by simp
qed

lemma dropEmptyTail_id: "s \<noteq> [] \<Longrightarrow> last s \<noteq> [] \<Longrightarrow> dropEmptyTail s = s"
  by (cases s rule: rev_cases) (simp_all add: dropEmptyTail_def)

text \<open>
  A text whose words are separated by single spaces and that does not end in white
  space has the result as a trailing substring, cut at the start of a word.
\<close>

lemma getOverlapText_single_spaced:
  assumes "0 < b"
    and "joinSpace (splitWords t) = t"
    and "t = [] \<or> \<not> isWhiteSpace (last t)"
  shows "\<exists>pre. t = pre @ getOverlapText enc t b \<and>
           (pre = [] \<or> getOverlapText enc t b = [] \<or> last pre = CHR '' '')"
proof -
  let ?W = "splitWords t"
  obtain taken where p: "prefix taken (rev ?W)"
    and r: "overlapLoop enc b (rev ?W) (accWords []) 0 = accWords (rev taken @ [])"
    using overlapLoop_taken [of "rev ?W" enc b "[]" 0] by blast
  let ?s = "rev taken"
  have res: "getOverlapText enc t b = accWords ?s"
    using assms(1) r by (simp add: getOverlapText_def)
  have "suffix ?s ?W"
    using p by (rule prefix_rev_suffix)
  then obtain q where W: "?W = q @ ?s"
    by (auto simp add: suffix_def)
  show ?thesis
  proof (cases "\<forall>w\<in>set ?s. w = []")
    case True
    then have "getOverlapText enc t b = []"
      using res by (simp only: accWords_Nil_iff [THEN iffD2])
    then show ?thesis by simp
  next
    case False
    then have sne: "?s \<noteq> []" by auto
    have lastW: "last ?W = last ?s"
      using sne by (simp add: W)
    have lst: "last ?s \<noteq> []"
    proof
      assume e: "last ?s = []"
      from False obtain x where "x \<in> set ?s" and "x \<noteq> []" by blast
      then have "butlast ?s \<noteq> []"
        using e sne by (cases ?s rule: rev_cases) auto
      then have bne: "butlast ?W \<noteq> []"
        using sne by (simp add: W butlast_append)
      have "?W = butlast ?W @ [[]]"
        using e lastW sne W append_butlast_last_id [of ?W] by auto
      then have "joinSpace ?W = joinSpace (butlast ?W) @ '' '' @ joinSpace [[]]"
        using joinSpace_append [OF bne, of "[[]]"] by simp
      then have "t = joinSpace (butlast ?W) @ '' ''"
        using assms(2) by simp
      then obtain x where "t = x @ '' ''"
        by blast
      then have "t \<noteq> [] \<and> last t = CHR '' ''"
        by simp
      then show False
        using assms(3) by (simp add: isWhiteSpace_def)
    qed
    have js: "getOverlapText enc t b = joinSpace ?s"
      using res dropEmptyTail_id [OF sne lst] by (simp only: accWords_joinSpace)
    show ?thesis
    proof (cases "q = []")
      case True
      then have "t = [] @ getOverlapText enc t b"
        using assms(2) W js by simp
      then show ?thesis by blast
    next
      case False
      have "t = joinSpace q @ '' '' @ joinSpace ?s"
        using assms(2) joinSpace_append [OF False sne] W by simp
      then have "t = (joinSpace q @ '' '') @ getOverlapText enc t b \<and>
          last (joinSpace q @ '' '') = CHR '' ''"
        using js by simp
      then show ?thesis by blast
    qed
  qed
qed

text \<open>
  Claim C4, amended. For every source text and every budget above 0 the result of
  \<open>getOverlapText\<close> is aligned to words: it is the single-space join of whole words, the
  last words of the text. It is a trailing substring of the text when the words of the
  text are separated by single spaces (the text is the single-space join of its split on
  white space) and the text does not end in white space; then it is empty, or the whole
  text, or it starts right after a space.
\<close>

theorem getOverlapText_trailing:
  assumes "0 < b"
  shows "(\<exists>s. suffix s (dropEmptyTail (splitWords t)) \<and> getOverlapText enc t b = joinSpace s) \<and>
         (joinSpace (splitWords t) = t \<longrightarrow> (t = [] \<or> \<not> isWhiteSpace (last t)) \<longrightarrow>
            (\<exists>pre. t = pre @ getOverlapText enc t b \<and>
               (pre = [] \<or> getOverlapText enc t b = [] \<or> last pre = CHR '' '')))"
  using getOverlapText_last_words [OF assms, of t enc]
    getOverlapText_single_spaced [OF assms, of t enc]
  by blast

theorem getOverlapText_trailing_witness:
  "(0::int) < 4 \<and> joinSpace (splitWords ''ab cd ef'') = ''ab cd ef'' \<and>
   \<not> isWhiteSpace (last ''ab cd ef'') \<and>
   ''ab cd ef'' = ''ab '' @ getOverlapText unitEncoder ''ab cd ef'' 4 \<and>
   (\<exists>pre. ''ab cd ef'' = pre @ getOverlapText unitEncoder ''ab cd ef'' 4 \<and>
      (pre = [] \<or> getOverlapText unitEncoder ''ab cd ef'' 4 = [] \<or> last pre = CHR '' ''))"
proof -
  have a: "(0::int) < 4" by simp
  have b: "joinSpace (splitWords ''ab cd ef'') = ''ab cd ef''"
    by code_simp
  have c: "\<not> isWhiteSpace (last ''ab cd ef'')"
    by code_simp
  have d: "''ab cd ef'' = ''ab '' @ getOverlapText unitEncoder ''ab cd ef'' 4"
    by code_simp
  have c': "''ab cd ef'' = [] \<or> \<not> isWhiteSpace (last ''ab cd ef'')"
    using c by (rule disjI2)
  have "\<exists>pre. ''ab cd ef'' = pre @ getOverlapText unitEncoder ''ab cd ef'' 4 \<and>
      (pre = [] \<or> getOverlapText unitEncoder ''ab cd ef'' 4 = [] \<or> last pre = CHR '' '')"
    using getOverlapText_trailing [OF a, of "''ab cd ef''" unitEncoder] b c' by blast
  with a b c d show ?thesis
    by (intro conjI)
qed

text \<open>
  The claim as stated fails as soon as the white space of the text is not single
  spaces: from \<open>a\<close>, newline, \<open>b\<close> and budget 2 the result is \<open>a b\<close>, which is not a
  trailing substring of the text.
\<close>

theorem getOverlapText_trailing_counterexample:
  "getOverlapText unitEncoder [CHR ''a'', newline, CHR ''b''] 2 = ''a b'' \<and>
   \<not> suffix ''a b'' [CHR ''a'', newline, CHR ''b'']"
proof -
  have a: "getOverlapText unitEncoder [CHR ''a'', newline, CHR ''b''] 2 = ''a b''"
    by code_simp
  have b: "\<not> suffix ''a b'' [CHR ''a'', newline, CHR ''b'']"
    by (simp add: suffix_Cons newline_def)
  from a b show ?thesis
    by (intro conjI)
qed

section \<open>Content that fits in one chunk\<close>

lemma paragraph_loop_fits:
  "int (currentTokens st + sum_list (map (countTokens enc) ps)) \<le> n \<Longrightarrow>
   foldl (paragraphStep enc n k) st ps =
     \<lparr>chunks = chunks st,
      currentChunk = foldl paraAcc (currentChunk st) ps,
      currentTokens = currentTokens st + sum_list (map (countTokens enc) ps)\<rparr>"
proof (induction ps arbitrary: st)
  case Nil
  show ?case by simp
next
  case (Cons p ps)
  have step: "paragraphStep enc n k st p =
      \<lparr>chunks = chunks st, currentChunk = paraAcc (currentChunk st) p,
       currentTokens = currentTokens st + countTokens enc p\<rparr>"
    using Cons.prems by (simp add: paragraphStep_def appendPiece_def paraAcc_def Let_def)
  have "int (currentTokens (paragraphStep enc n k st p) + sum_list (map (countTokens enc) ps)) \<le> n"
    using Cons.prems by (simp add: step)
  then show ?case
    using Cons.IH [of "paragraphStep enc n k st p"] by (simp add: step)
qed

lemma paraAcc_loop_nonempty:
  "cur \<noteq> [] \<Longrightarrow>
   foldl paraAcc cur ps = (if ps = [] then cur else cur @ [newline, newline] @ joinParagraphs ps)"
proof (induction ps arbitrary: cur)
  case Nil
  show ?case by simp
next
  case (Cons p ps)
  have e: "paraAcc cur p = cur @ [newline, newline] @ p"
    using Cons.prems by (simp add: paraAcc_def)
  then have ne: "paraAcc cur p \<noteq> []"
    using Cons.prems by simp
  have "foldl paraAcc cur (p # ps) = foldl paraAcc (paraAcc cur p) ps"
    by simp
  also have "\<dots> =
      (if ps = [] then paraAcc cur p else paraAcc cur p @ [newline, newline] @ joinParagraphs ps)"
    using ne by (rule Cons.IH)
  also have "\<dots> = cur @ [newline, newline] @ joinParagraphs (p # ps)"
    unfolding e by (cases ps) simp_all
  finally show ?case
    by simp
qed

lemma paraAcc_loop:
  "foldl paraAcc [] ps = joinParagraphs (dropWhile (\<lambda>p. p = []) ps)"
proof (induction ps)
  case Nil
  show ?case by simp
next
  case (Cons p ps)
  show ?case
  proof (cases "p = []")
    case True
    then show ?thesis
      using Cons.IH by (simp add: paraAcc_def)
  next
    case False
    have "foldl paraAcc [] (p # ps) = foldl paraAcc p ps"
      by (simp add: paraAcc_def)
    also have "\<dots> = (if ps = [] then p else p @ [newline, newline] @ joinParagraphs ps)"
      using False by (rule paraAcc_loop_nonempty)
    also have "\<dots> = joinParagraphs (p # ps)"
      by (cases ps) simp_all
    finally show ?thesis
      using False by simp
  qed
qed

lemma trim_newlines: "trim ([newline, newline] @ s) = trim s"
  by (simp add: trim_def isWhiteSpace_def newline_def)

lemma trim_join_dropWhile:
  "trim (joinParagraphs (dropWhile (\<lambda>p. p = []) ps)) = trim (joinParagraphs ps)"
proof (induction ps)
  case Nil
  show ?case by simp
next
  case (Cons p ps)
  show ?case
  proof (cases "p = []")
    case True
    show ?thesis
    proof (cases ps)
      case Nil
      then show ?thesis using True by simp
    next
      case (Cons q qs)
      have "trim (joinParagraphs ([] # q # qs)) = trim (joinParagraphs (q # qs))"
        using trim_newlines [of "joinParagraphs (q # qs)"] by simp
      then show ?thesis
        using True Cons Cons.IH by simp
    qed
  next
    case False
    then show ?thesis by simp
  qed
qed


lemma joinParagraphs_Cons:
  "ps \<noteq> [] \<Longrightarrow> joinParagraphs (p # ps) = p @ [newline, newline] @ joinParagraphs ps"
  by (cases ps) simp_all

lemma hasTripleNewline_tl: "\<not> hasTripleNewline (c # cs) \<Longrightarrow> \<not> hasTripleNewline cs"
  by (cases cs rule: hasTripleNewline.cases) auto

lemma no_triple_run: "\<not> hasTripleNewline s \<Longrightarrow> length (takeWhile (\<lambda>c. c = newline) s) \<le> 2"
  by (cases s rule: hasTripleNewline.cases) auto

lemma no_triple_drop: "\<not> hasTripleNewline s \<Longrightarrow> \<not> hasTripleNewline (drop i s)"
proof (induction i arbitrary: s)
  case 0
  then show ?case by simp
next
  case (Suc i)
  then show ?case
    by (cases s) (auto dest: hasTripleNewline_tl)
qed

lemma blank_match_is_newlines:
  "matchBlankLines prev s \<noteq> 0 \<Longrightarrow>
   take (matchBlankLines prev s) s = replicate (matchBlankLines prev s) newline"
proof -
  assume "matchBlankLines prev s \<noteq> 0"
  then have e: "matchBlankLines prev s = length (takeWhile (\<lambda>c. c = newline) s)"
    by (simp add: matchBlankLines_def Let_def split: if_splits)
  have "take (length (takeWhile (\<lambda>c. c = newline) s)) s = takeWhile (\<lambda>c. c = newline) s"
    by (metis append_eq_conv_conj takeWhile_dropWhile_id)
  moreover have "takeWhile (\<lambda>c. c = newline) s =
      replicate (length (takeWhile (\<lambda>c. c = newline) s)) newline"
    by (rule replicate_length_same [symmetric]) (auto dest: set_takeWhileD)
  ultimately show ?thesis
    using e by simp
qed

lemma paragraphs_join:
  "\<not> hasTripleNewline s \<Longrightarrow> joinParagraphs (jsSplit matchBlankLines prev cur s) = cur @ s"
proof (induction matchBlankLines prev cur s rule: jsSplit.induct)
  case (1 prev cur)
  show ?case by simp
next
  case (2 prev cur c cs)
  let ?e = "matchBlankLines prev (c # cs)"
  show ?case
  proof (cases "?e = 0")
    case True
    have eq: "jsSplit matchBlankLines prev cur (c # cs) =
        jsSplit matchBlankLines (Some c) (cur @ [c]) cs"
      by (simp only: jsSplit.simps Let_def True if_True simp_thms)
    show ?thesis
      unfolding eq
      using "2.hyps"(1) [OF refl True hasTripleNewline_tl [OF "2.prems"]] by simp
  next
    case False
    have eq: "jsSplit matchBlankLines prev cur (c # cs) =
        cur # jsSplit matchBlankLines (Some (last (take ?e (c # cs)))) [] (drop ?e (c # cs))"
      by (simp only: jsSplit.simps Let_def False if_False simp_thms)
    have "?e = length (takeWhile (\<lambda>x. x = newline) (c # cs)) \<and> 2 \<le> ?e"
      using False by (simp add: matchBlankLines_def Let_def split: if_splits)
    then have e2: "?e = 2"
      using no_triple_run [OF "2.prems"] by simp
    have "take ?e (c # cs) = replicate ?e newline"
      by (rule blank_match_is_newlines [OF False])
    also have "\<dots> = [newline, newline]"
      unfolding e2 by (simp add: numeral_2_eq_2)
    finally have tk: "take ?e (c # cs) = [newline, newline]" .
    have ih: "joinParagraphs (jsSplit matchBlankLines (Some (last (take ?e (c # cs)))) []
                (drop ?e (c # cs))) = [] @ drop ?e (c # cs)"
      by (rule "2.hyps"(2) [OF refl False no_triple_drop [OF "2.prems"]])
    have "c # cs = take ?e (c # cs) @ drop ?e (c # cs)"
      by simp
    then have whole: "c # cs = [newline, newline] @ drop ?e (c # cs)"
      by (simp only: tk)
    have "joinParagraphs (jsSplit matchBlankLines prev cur (c # cs)) =
        cur @ ([newline, newline] @ drop ?e (c # cs))"
      unfolding eq using ih jsSplit_not_Nil by (simp add: joinParagraphs_Cons)
    also have "[newline, newline] @ drop ?e (c # cs) = c # cs"
      by (rule whole [symmetric])
    finally show ?thesis .
  qed
qed


lemma paragraphs_keep_chars:
  "x \<in> set cur \<union> set s \<Longrightarrow> x \<noteq> newline \<Longrightarrow>
   x \<in> set (concat (jsSplit matchBlankLines prev cur s))"
proof (induction matchBlankLines prev cur s rule: jsSplit.induct)
  case (1 prev cur)
  then show ?case by simp
next
  case (2 prev cur c cs)
  let ?e = "matchBlankLines prev (c # cs)"
  show ?case
  proof (cases "?e = 0")
    case True
    have eq: "jsSplit matchBlankLines prev cur (c # cs) =
        jsSplit matchBlankLines (Some c) (cur @ [c]) cs"
      by (simp only: jsSplit.simps Let_def True if_True simp_thms)
    have "x \<in> set (cur @ [c]) \<union> set cs"
      using "2.prems"(1) by auto
    then show ?thesis
      unfolding eq by (rule "2.hyps"(1) [OF refl True _ "2.prems"(2)])
  next
    case False
    have eq: "jsSplit matchBlankLines prev cur (c # cs) =
        cur # jsSplit matchBlankLines (Some (last (take ?e (c # cs)))) [] (drop ?e (c # cs))"
      by (simp only: jsSplit.simps Let_def False if_False simp_thms)
    have "set (c # cs) = set (take ?e (c # cs)) \<union> set (drop ?e (c # cs))"
      by (metis append_take_drop_id set_append)
    moreover have "x \<notin> set (take ?e (c # cs))"
      unfolding blank_match_is_newlines [OF False] using "2.prems"(2) by simp
    ultimately have "x \<in> set cur \<or> x \<in> set [] \<union> set (drop ?e (c # cs))"
      using "2.prems"(1) by auto
    then show ?thesis
    proof
      assume "x \<in> set cur"
      then show ?thesis unfolding eq by simp
    next
      assume "x \<in> set [] \<union> set (drop ?e (c # cs))"
      then have "x \<in> set (concat (jsSplit matchBlankLines (Some (last (take ?e (c # cs)))) []
                  (drop ?e (c # cs))))"
        by (rule "2.hyps"(2) [OF refl False _ "2.prems"(2)])
      then show ?thesis unfolding eq by simp
    qed
  qed
qed

lemma concat_subset_join: "set (concat ps) \<subseteq> set (joinParagraphs ps)"
  by (induction ps rule: joinParagraphs.induct) auto

lemma trim_join_not_Nil:
  assumes "trim c \<noteq> []"
  shows "trim (joinParagraphs (splitParagraphs c)) \<noteq> []"
proof -
  from assms obtain x where x: "x \<in> set c" and w: "\<not> isWhiteSpace x"
    by (auto simp add: trim_Nil_iff)
  from w have "x \<noteq> newline"
    by (auto simp add: isWhiteSpace_def newline_def)
  then have "x \<in> set (concat (splitParagraphs c))"
    unfolding splitParagraphs_def using x by (intro paragraphs_keep_chars) simp_all
  then have "x \<in> set (joinParagraphs (splitParagraphs c))"
    using concat_subset_join by blast
  then show ?thesis
    using w by (auto simp add: trim_Nil_iff)
qed

text \<open>
  Claim C1, amended. For every content that is not white space only and whose
  paragraphs, the pieces between runs of two or more newlines, have token counts that
  sum to at most \<open>chunkSize\<close> (the sum is what the code compares with \<open>chunkSize\<close>),
  \<open>chunkContent\<close> returns exactly one chunk: the trimmed text of the paragraphs joined
  by two newlines. It is the trimmed content when the content has no run of three or
  more newlines.
\<close>

theorem chunkContent_fits:
  assumes "int (sum_list (map (countTokens enc) (splitParagraphs c))) \<le> n"
    and "trim c \<noteq> []"
  shows "chunkContent enc c n k = [trim (joinParagraphs (splitParagraphs c))] \<and>
         (\<not> hasTripleNewline c \<longrightarrow> chunkContent enc c n k = [trim c])"
proof -
  let ?ps = "splitParagraphs c"
  let ?init = "\<lparr>chunks = [], currentChunk = [], currentTokens = 0\<rparr>"
  have "foldl (paragraphStep enc n k) ?init ?ps =
      \<lparr>chunks = chunks ?init, currentChunk = foldl paraAcc (currentChunk ?init) ?ps,
       currentTokens = currentTokens ?init + sum_list (map (countTokens enc) ?ps)\<rparr>"
    using assms(1) by (intro paragraph_loop_fits) simp
  then have st: "foldl (paragraphStep enc n k) ?init ?ps =
      \<lparr>chunks = [], currentChunk = joinParagraphs (dropWhile (\<lambda>p. p = []) ?ps),
       currentTokens = sum_list (map (countTokens enc) ?ps)\<rparr>"
    by (simp add: paraAcc_loop)
  have one: "chunkContent enc c n k = [trim (joinParagraphs ?ps)]"
    using trim_join_not_Nil [OF assms(2)]
    by (simp add: chunkContent_def st trim_join_dropWhile Let_def)
  have "\<not> hasTripleNewline c \<Longrightarrow> joinParagraphs ?ps = c"
    using paragraphs_join [of c None "[]"] by (simp add: splitParagraphs_def)
  then show ?thesis
    using one by simp
qed


theorem chunkContent_fits_witness:
  "int (sum_list (map (countTokens unitEncoder)
          (splitParagraphs [CHR '' '', CHR ''a'', newline, newline, CHR ''b'']))) \<le> 5 \<and>
   trim [CHR '' '', CHR ''a'', newline, newline, CHR ''b''] = [CHR ''a'', newline, newline, CHR ''b''] \<and>
   \<not> hasTripleNewline [CHR '' '', CHR ''a'', newline, newline, CHR ''b''] \<and>
   chunkContent unitEncoder [CHR '' '', CHR ''a'', newline, newline, CHR ''b''] 5 0 =
     [[CHR ''a'', newline, newline, CHR ''b'']]"
proof -
  let ?c = "[CHR '' '', CHR ''a'', newline, newline, CHR ''b'']"
  have a: "int (sum_list (map (countTokens unitEncoder) (splitParagraphs ?c))) \<le> 5"
    by code_simp
  have t: "trim ?c = [CHR ''a'', newline, newline, CHR ''b'']"
    by code_simp
  have b: "trim ?c \<noteq> []"
    unfolding t by simp
  have h: "\<not> hasTripleNewline ?c"
    by code_simp
  have "chunkContent unitEncoder ?c 5 0 = [trim ?c]"
    using chunkContent_fits [OF a b, of 0] h by blast
  then have r: "chunkContent unitEncoder ?c 5 0 = [[CHR ''a'', newline, newline, CHR ''b'']]"
    unfolding t .
  from a t h r show ?thesis
    by (intro conjI)
qed

text \<open>
  The claim as stated fails in two ways. The empty content has no token and gives no
  chunk, not one. And a content with three newlines in a row comes back with two: the
  paragraphs are joined again by two newlines, so the chunk is not the trimmed content.
\<close>

theorem chunkContent_fits_counterexample:
  "int (countTokens unitEncoder []) \<le> 5 \<and>
   chunkContent unitEncoder [] 5 0 = [] \<and>
   int (countTokens unitEncoder [CHR ''a'', newline, newline, newline, CHR ''b'']) \<le> 10 \<and>
   chunkContent unitEncoder [CHR ''a'', newline, newline, newline, CHR ''b''] 10 0 =
     [[CHR ''a'', newline, newline, CHR ''b'']] \<and>
   trim [CHR ''a'', newline, newline, newline, CHR ''b''] =
     [CHR ''a'', newline, newline, newline, CHR ''b'']"
proof -
  have a: "int (countTokens unitEncoder []) \<le> 5"
    by code_simp
  have b: "chunkContent unitEncoder [] 5 0 = []"
    by code_simp
  have c: "int (countTokens unitEncoder [CHR ''a'', newline, newline, newline, CHR ''b'']) \<le> 10"
    by code_simp
  have d: "chunkContent unitEncoder [CHR ''a'', newline, newline, newline, CHR ''b''] 10 0 =
     [[CHR ''a'', newline, newline, CHR ''b'']]"
    by code_simp
  have e: "trim [CHR ''a'', newline, newline, newline, CHR ''b''] =
     [CHR ''a'', newline, newline, newline, CHR ''b'']"
    by code_simp
  from a b c d e show ?thesis
    by (intro conjI)
qed

end
